theory Spec2Isabelle
  imports Main "HOL-Library.Monad_Syntax"
begin

section \<open>Memory and control primitives of the C++ source\<close>

text \<open>
  The file oclDijkstraKernel.cpp computes single-source shortest paths for a batch of
  source vertices over a graph in compressed sparse rows: \<open>runDijkstraRef\<close> on the
  host, \<open>runDijkstra\<close> on one OpenCL device, and \<open>runDijkstraMultiGPU\<close> and
  \<open>runDijkstraMultiGPUandCPU\<close> on several devices, each with its share of the
  batch. This theory embeds the reference engine and the partition of the batch.

  A C array is a list. An access outside the array is undefined behaviour in C++; the
  model gives it no result (\<open>None\<close>), so every function that touches memory returns
  an option, and a theorem that a function returns \<open>Some\<close> says that the run stays
  inside its arrays (and, for the while loop, that it ends). An \<open>int\<close> of C is an
  integer of the model. The counters of the loops stay below a count that is an
  \<open>int\<close>, so they cannot overflow; the product \<open>i * vertexCount\<close> that indexes
  the output can, and goes through \<open>int_mul\<close>.
\<close>

definition rd :: "'a list \<Rightarrow> int \<Rightarrow> 'a option" where
  \<comment> \<open>the read \<open>xs[i]\<close>\<close>
  "rd xs i = (if 0 \<le> i \<and> i < int (length xs) then Some (xs ! nat i) else None)"

definition wr :: "'a list \<Rightarrow> int \<Rightarrow> 'a \<Rightarrow> 'a list option" where
  \<comment> \<open>the write \<open>xs[i] = v\<close>\<close>
  "wr xs i v = (if 0 \<le> i \<and> i < int (length xs) then Some (xs[nat i := v]) else None)"



definition int_mul :: "int \<Rightarrow> int \<Rightarrow> int option" where
  \<comment> \<open>the product of two \<open>int\<close>s, 32 bits wide; signed overflow is undefined\<close>
  "int_mul a b = (if - (2 ^ 31) \<le> a * b \<and> a * b < 2 ^ 31 then Some (a * b) else None)"

text \<open>The loop \<open>for (int i = lo; i < hi; i++) body\<close> on a state \<open>s\<close>.\<close>

function for_loop :: "int \<Rightarrow> int \<Rightarrow> (int \<Rightarrow> 's \<Rightarrow> 's option) \<Rightarrow> 's \<Rightarrow> 's option" where
  "for_loop i hi body s =
     (if i < hi then (case body i s of None \<Rightarrow> None | Some s' \<Rightarrow> for_loop (i + 1) hi body s')
      else Some s)"
  by pat_completeness auto
termination
  by (relation "measure (\<lambda>(i, hi, body, s). nat (hi - i))") auto

declare for_loop.simps [simp del]

section \<open>The convergence test\<close>

function maskArrayEmpty_from :: "int list \<Rightarrow> int \<Rightarrow> int \<Rightarrow> bool option" where
  "maskArrayEmpty_from maskArray count i =
     (if i < count then
        (case rd maskArray i of
           None \<Rightarrow> None
         | Some m \<Rightarrow> if m = 1 then Some False else maskArrayEmpty_from maskArray count (i + 1))
      else Some True)"
  by pat_completeness auto
termination
  by (relation "measure (\<lambda>(maskArray, count, i). nat (count - i))") auto

declare maskArrayEmpty_from.simps [simp del]

definition maskArrayEmpty :: "int list \<Rightarrow> int \<Rightarrow> bool option" where
  "maskArrayEmpty maskArray count = maskArrayEmpty_from maskArray count 0"

section \<open>The graph and the working arrays\<close>

text \<open>
  Modelled from the spec: the struct \<open>GraphData\<close> is declared in oclDijkstraKernel.h,
  which is not among the sources; its fields are those the code reads
  (\<open>graph->vertexArray\<close>, \<open>graph->vertexCount\<close>, \<open>graph->edgeArray\<close>,
  \<open>graph->edgeCount\<close>, \<open>graph->weightArray\<close>) and the spec's data model lists.

  The type \<open>'f\<close> stands for C's \<open>float\<close>: the code compares costs with \<open>>\<close>, adds
  a weight to a cost and writes the constants \<open>0.0\<close> and \<open>FLT_MAX\<close>. The model
  takes any linear order with \<open>0\<close> and \<open>+\<close> for it and takes \<open>FLT_MAX\<close> (a
  constant of float.h) as a parameter. Nothing is assumed of \<open>+\<close> in the definitions;
  each theorem names the law of addition it needs. A linear order has no NaN: the code
  only ever adds a weight to a cost, so NaN cannot arise from weights that are not NaN.
\<close>

record 'f GraphData =
  vertexArray :: "int list"
  vertexCount :: int
  edgeArray :: "int list"
  edgeCount :: int
  weightArray :: "'f list"

text \<open>The three arrays that \<open>runDijkstraRef\<close> allocates and reuses for every query.\<close>

record 'f buffers =
  maskArray :: "int list"
  costArray :: "'f list"
  updatingCostArray :: "'f list"

section \<open>The reference engine \<open>runDijkstraRef\<close>\<close>

text \<open>The body of the initialisation loop, for vertex \<open>v\<close> of query \<open>i\<close>.\<close>

definition init_vertex ::
  "'f \<Rightarrow> int list \<Rightarrow> int \<Rightarrow> int \<Rightarrow> ('f::{linorder,plus,zero}) buffers \<Rightarrow> 'f buffers option" where
  "init_vertex FLT_MAX sourceVertices i v b =
     do {
       s \<leftarrow> rd sourceVertices i;
       if v = s then
         do {
           m \<leftarrow> wr (maskArray b) v 1;
           c \<leftarrow> wr (costArray b) v 0;
           u \<leftarrow> wr (updatingCostArray b) v 0;
           Some \<lparr>maskArray = m, costArray = c, updatingCostArray = u\<rparr>
         }
       else
         do {
           m \<leftarrow> wr (maskArray b) v 0;
           c \<leftarrow> wr (costArray b) v FLT_MAX;
           u \<leftarrow> wr (updatingCostArray b) v FLT_MAX;
           Some \<lparr>maskArray = m, costArray = c, updatingCostArray = u\<rparr>
         }
     }"

definition init_buffers ::
  "'f \<Rightarrow> 'f GraphData \<Rightarrow> int list \<Rightarrow> int \<Rightarrow> ('f::{linorder,plus,zero}) buffers \<Rightarrow> 'f buffers option" where
  "init_buffers FLT_MAX graph sourceVertices i b =
     for_loop 0 (vertexCount graph) (init_vertex FLT_MAX sourceVertices i) b"

text \<open>The body of the innermost loop: the relaxation of edge number \<open>edge\<close> of \<open>tid\<close>.\<close>

definition relax_edge ::
  "'f GraphData \<Rightarrow> int \<Rightarrow> int \<Rightarrow> ('f::{linorder,plus,zero}) buffers \<Rightarrow> 'f buffers option" where
  "relax_edge graph tid edge b =
     do {
       nid \<leftarrow> rd (edgeArray graph) edge;
       u \<leftarrow> rd (updatingCostArray b) nid;
       c \<leftarrow> rd (costArray b) tid;
       w \<leftarrow> rd (weightArray graph) edge;
       if u > c + w then
         do {
           u' \<leftarrow> wr (updatingCostArray b) nid (c + w);
           Some (b\<lparr>updatingCostArray := u'\<rparr>)
         }
       else Some b
     }"

text \<open>The body of the first sweep (the equivalent of OCL_SSSP_KERNEL1) for \<open>tid\<close>.\<close>

definition kernel1_vertex ::
  "'f GraphData \<Rightarrow> int \<Rightarrow> ('f::{linorder,plus,zero}) buffers \<Rightarrow> 'f buffers option" where
  "kernel1_vertex graph tid b =
     do {
       m \<leftarrow> rd (maskArray b) tid;
       if m \<noteq> 0 then
         do {
           m' \<leftarrow> wr (maskArray b) tid 0;
           edgeStart \<leftarrow> rd (vertexArray graph) tid;
           edgeEnd \<leftarrow> (if tid + 1 < vertexCount graph then rd (vertexArray graph) (tid + 1)
                       else Some (edgeCount graph));
           for_loop edgeStart edgeEnd (relax_edge graph tid) (b\<lparr>maskArray := m'\<rparr>)
         }
       else Some b
     }"

definition kernel1 ::
  "'f GraphData \<Rightarrow> ('f::{linorder,plus,zero}) buffers \<Rightarrow> 'f buffers option" where
  "kernel1 graph b = for_loop 0 (vertexCount graph) (kernel1_vertex graph) b"

text \<open>The body of the second sweep (the equivalent of OCL_SSSP_KERNEL2) for \<open>tid\<close>.\<close>

definition kernel2_vertex ::
  "int \<Rightarrow> ('f::{linorder,plus,zero}) buffers \<Rightarrow> 'f buffers option" where
  "kernel2_vertex tid b =
     do {
       c \<leftarrow> rd (costArray b) tid;
       u \<leftarrow> rd (updatingCostArray b) tid;
       b1 \<leftarrow> (if c > u then
                do {
                  c' \<leftarrow> wr (costArray b) tid u;
                  m' \<leftarrow> wr (maskArray b) tid 1;
                  Some (b\<lparr>maskArray := m', costArray := c'\<rparr>)
                }
              else Some b);
       c1 \<leftarrow> rd (costArray b1) tid;
       u' \<leftarrow> wr (updatingCostArray b1) tid c1;
       Some (b1\<lparr>updatingCostArray := u'\<rparr>)
     }"

definition kernel2 ::
  "'f GraphData \<Rightarrow> ('f::{linorder,plus,zero}) buffers \<Rightarrow> 'f buffers option" where
  "kernel2 graph b = for_loop 0 (vertexCount graph) kernel2_vertex b"

text \<open>One pass through the body of the while loop: the first sweep, then the second.\<close>

definition iteration ::
  "'f GraphData \<Rightarrow> ('f::{linorder,plus,zero}) buffers \<Rightarrow> 'f buffers option" where
  "iteration graph b = do { b1 \<leftarrow> kernel1 graph b; kernel2 graph b1 }"

text \<open>
  The loop \<open>while (!maskArrayEmpty(maskArray, graph->vertexCount))\<close>. It has no bound
  in the source, so it is a partial function: \<open>None\<close> is a run that leaves its arrays or
  does not end.
\<close>

partial_function (option) while_mask ::
  "'f GraphData \<Rightarrow> ('f::{linorder,plus,zero}) buffers \<Rightarrow> 'f buffers option" where
  "while_mask graph b =
     do {
       e \<leftarrow> maskArrayEmpty (maskArray b) (vertexCount graph);
       if e then Some b
       else do { b' \<leftarrow> iteration graph b; while_mask graph b' }
     }"



declare while_mask.simps [code]

section \<open>The workload partitioner\<close>

text \<open>
  The struct \<open>DevicePlan\<close>. The two pointers into the caller's arrays are offsets:
  \<open>plan_sourceVertices\<close> is the index \<open>offset\<close> of \<open>&sourceVertices[offset]\<close>
  and \<open>plan_outResultCosts\<close> the index \<open>offset * vertexCount\<close> of
  \<open>&outResultCosts[offset * vertexCount]\<close>, an int product with no value when it
  overflows.
  The device is named by its context and its number in that context
  (\<open>oclGetDev(context, i)\<close>). The field \<open>endVertices\<close> is never written or read.
\<close>

datatype cl_context = gpuContext | cpuContext

record 'f DevicePlan =
  plan_context :: cl_context
  plan_deviceId :: nat
  plan_graph :: "'f GraphData"
  plan_sourceVertices :: int
  plan_outResultCosts :: "int option"
  plan_numResults :: int

text \<open>
  The conversions of C between \<open>int\<close> and \<open>unsigned int\<close> (both 32 bits wide): the
  division \<open>numResults / deviceCount\<close> has an unsigned divisor, so it is computed on
  unsigned values and its quotient converted back.
\<close>

definition uint32 :: "int \<Rightarrow> int" where
  "uint32 x = x mod 2 ^ 32"

definition int32 :: "int \<Rightarrow> int" where
  "int32 x = (x + 2 ^ 31) mod 2 ^ 32 - 2 ^ 31"

text \<open>
  The conversions between \<open>int\<close> and \<open>float\<close> in
  \<open>int gpuResults = numResults / (ratioCPUtoGPU)\<close>. A float has a significand of 24
  bits: an int of more bits is rounded to the nearest float, a tie going to the even
  significand (the rounding of IEEE 754 hardware). \<open>float_of_int n\<close> is the value of
  \<open>(float) n\<close>, which is an integer again. Converting a float back to int drops the
  fraction and is undefined outside the range of int.
\<close>

function bit_length :: "int \<Rightarrow> nat" where
  "bit_length n = (if n \<le> 0 then 0 else Suc (bit_length (n div 2)))"
  by pat_completeness auto
termination
  by (relation "measure nat") auto

declare bit_length.simps [simp del]

definition float_of_int :: "int \<Rightarrow> int" where
  "float_of_int n =
     (if \<bar>n\<bar> < 2 ^ 24 then n
      else let q = 2 ^ (bit_length \<bar>n\<bar> - 24);
               m = \<bar>n\<bar> div q;
               r = \<bar>n\<bar> mod q;
               m' = (if q < 2 * r \<or> (2 * r = q \<and> odd m) then m + 1 else m)
           in sgn n * (m' * q))"

definition int_of_float :: "int \<Rightarrow> int option" where
  "int_of_float x = (if - (2 ^ 31) \<le> x \<and> x < 2 ^ 31 then Some x else None)"

text \<open>
  The loops that fill \<open>devicePlans\<close>: each pass appends the plan of device \<open>i\<close> of
  context \<open>ctx\<close> at the running \<open>offset\<close> and advances the offset by the plan's share.
\<close>

definition plan_device ::
  "cl_context \<Rightarrow> 'f GraphData \<Rightarrow> int \<Rightarrow> nat \<Rightarrow> 'f DevicePlan list \<times> int \<Rightarrow> 'f DevicePlan list \<times> int" where
  "plan_device ctx graph share i st =
     (case st of (devicePlans, offset) \<Rightarrow>
        (devicePlans @
           [\<lparr>plan_context = ctx, plan_deviceId = i, plan_graph = graph,
             plan_sourceVertices = offset,
             plan_outResultCosts = int_mul offset (vertexCount graph),
             plan_numResults = share\<rparr>],
         offset + share))"

text \<open>\<open>devicePlans[last].numResults += (numResults - offset)\<close>, when \<open>offset < numResults\<close>.\<close>

definition add_remaining ::
  "nat \<Rightarrow> int \<Rightarrow> 'f DevicePlan list \<times> int \<Rightarrow> 'f DevicePlan list" where
  "add_remaining last_device numResults st =
     (case st of (devicePlans, offset) \<Rightarrow>
        if offset < numResults
        then devicePlans[last_device :=
               (devicePlans ! last_device)
                 \<lparr>plan_numResults := plan_numResults (devicePlans ! last_device) + (numResults - offset)\<rparr>]
        else devicePlans)"

text \<open>The plans that \<open>runDijkstraMultiGPU\<close> builds for \<open>deviceCount > 0\<close> devices.\<close>

definition plans_MultiGPU :: "nat \<Rightarrow> 'f GraphData \<Rightarrow> int \<Rightarrow> 'f DevicePlan list" where
  "plans_MultiGPU deviceCount graph numResults =
     (let resultsPerDevice = int32 (uint32 numResults div int deviceCount)
      in add_remaining (deviceCount - 1) numResults
           (fold (plan_device gpuContext graph resultsPerDevice) [0..<deviceCount] ([], 0)))"

text \<open>
  \<open>runDijkstraMultiGPU\<close>. The number of devices is what \<open>clGetContextInfo\<close> reports
  for the context. The worker \<open>dijkstraThread\<close> runs \<open>runDijkstra\<close>, whose work is
  done by the OpenCL kernels of dijkstra.cl, so what a worker does to the output array is
  a parameter: it maps a plan, the source vertices and the output array to the output
  array it leaves. The threads are joined before the function returns; the model applies
  their effects in the order of their launch. The result is the list of plans for which a
  worker was launched and the output array.
\<close>

definition runDijkstraMultiGPU ::
  "('f DevicePlan \<Rightarrow> int list \<Rightarrow> 'f list \<Rightarrow> 'f list) \<Rightarrow> nat \<Rightarrow> 'f GraphData \<Rightarrow> int list \<Rightarrow> 'f list \<Rightarrow> int
     \<Rightarrow> 'f DevicePlan list \<times> 'f list" where
  "runDijkstraMultiGPU dijkstraThread deviceCount graph sourceVertices outResultCosts numResults =
     (if deviceCount = 0 then ([], outResultCosts)
      else let devicePlans = plans_MultiGPU deviceCount graph numResults
           in (devicePlans, fold (\<lambda>plan. dijkstraThread plan sourceVertices) devicePlans outResultCosts))"

text \<open>
  The plans that \<open>runDijkstraMultiGPUandCPU\<close> builds. \<open>ratioCPUtoGPU\<close> is the float
  constant 1, and a float divided by 1 is itself, so \<open>gpuResults\<close> is \<open>numResults\<close>
  converted to float and back. The sum of the two device counts is an unsigned int of 32
  bits; \<open>devicePlans\<close> is allocated for that many plans, so a sum that wraps around
  (a division by zero, or plans written past the allocation) has no result.
\<close>

definition plans_MultiGPUandCPU ::
  "nat \<Rightarrow> nat \<Rightarrow> 'f GraphData \<Rightarrow> int \<Rightarrow> 'f DevicePlan list option" where
  "plans_MultiGPUandCPU gpuDeviceCount cpuDeviceCount graph numResults =
     (let totalDeviceCount = nat (uint32 (int gpuDeviceCount + int cpuDeviceCount))
      in case int_of_float (float_of_int numResults) of
           None \<Rightarrow> None
         | Some gpuResults \<Rightarrow>
             if totalDeviceCount = 0 \<or> totalDeviceCount < gpuDeviceCount + cpuDeviceCount then None
             else
               let cpuResults = numResults - gpuResults;
                   resultsPerGPU = int32 (uint32 gpuResults div int totalDeviceCount);
                   st1 = fold (plan_device gpuContext graph resultsPerGPU) [0..<gpuDeviceCount] ([], 0);
                   resultsPerCPU = cpuResults;
                   st2 = fold (plan_device cpuContext graph resultsPerCPU) [0..<cpuDeviceCount] st1
               in Some (add_remaining (totalDeviceCount - 1) numResults st2))"

definition runDijkstraMultiGPUandCPU ::
  "('f DevicePlan \<Rightarrow> int list \<Rightarrow> 'f list \<Rightarrow> 'f list) \<Rightarrow> nat \<Rightarrow> nat \<Rightarrow> 'f GraphData \<Rightarrow> int list
     \<Rightarrow> 'f list \<Rightarrow> int \<Rightarrow> ('f DevicePlan list \<times> 'f list) option" where
  "runDijkstraMultiGPUandCPU dijkstraThread gpuDeviceCount cpuDeviceCount graph sourceVertices
       outResultCosts numResults =
     (if gpuDeviceCount = 0 then Some ([], outResultCosts)
      else if cpuDeviceCount = 0 then Some ([], outResultCosts)
      else case plans_MultiGPUandCPU gpuDeviceCount cpuDeviceCount graph numResults of
             None \<Rightarrow> None
           | Some devicePlans \<Rightarrow>
               Some (devicePlans,
                     fold (\<lambda>plan. dijkstraThread plan sourceVertices) devicePlans outResultCosts))"

text \<open>
  The queries a plan's worker processes: \<open>runDijkstra\<close> runs its loop
  \<open>for (i = 0; i < numResults; i++)\<close> on the source vertices from the plan's offset on.
\<close>

definition plan_queries :: "'f DevicePlan \<Rightarrow> int set" where
  "plan_queries p = {plan_sourceVertices p ..< plan_sourceVertices p + plan_numResults p}"

section \<open>Well-formed inputs\<close>

text \<open>
  The CSR invariants of the spec's data model: the offsets in \<open>vertexArray\<close> do not
  decrease and lie in the edge arrays, every destination in \<open>edgeArray\<close> is a vertex,
  and the arrays have the lengths the counts announce.
\<close>

definition csr_invariants :: "'f GraphData \<Rightarrow> bool" where
  "csr_invariants g \<longleftrightarrow>
     0 \<le> vertexCount g \<and> 0 \<le> edgeCount g \<and>
     int (length (vertexArray g)) = vertexCount g \<and>
     int (length (edgeArray g)) = edgeCount g \<and>
     int (length (weightArray g)) = edgeCount g \<and>
     sorted (vertexArray g) \<and>
     (\<forall>x\<in>set (vertexArray g). 0 \<le> x \<and> x \<le> edgeCount g) \<and>
     (\<forall>x\<in>set (edgeArray g). 0 \<le> x \<and> x < vertexCount g)"

text \<open>The working arrays have \<open>n\<close> entries each; the mask holds only 0 and 1.\<close>

definition sized :: "nat \<Rightarrow> 'f buffers \<Rightarrow> bool" where
  "sized n b \<longleftrightarrow>
     length (maskArray b) = n \<and> length (costArray b) = n \<and> length (updatingCostArray b) = n"

definition mask01 :: "'f buffers \<Rightarrow> bool" where
  "mask01 b \<longleftrightarrow> (\<forall>m\<in>set (maskArray b). m = 0 \<or> m = 1)"

section \<open>The two sweeps as the spec words them\<close>

text \<open>
  The spec's phase 1: for every vertex \<open>tid\<close> whose mask is 1, clear the mask, then for
  every outgoing edge \<open>tid \<rightarrow> nid\<close> with weight \<open>w\<close> set
  \<open>updatingCost[nid] = min(updatingCost[nid], cost[tid] + w)\<close>; other vertices are
  skipped. The outgoing edges of \<open>tid\<close> are the edge indices from its offset to the
  next vertex's offset, or to \<open>edgeCount\<close> for the last vertex, and the weight is the
  one at the edge index.
\<close>

definition out_edges :: "'f GraphData \<Rightarrow> nat \<Rightarrow> nat list" where
  "out_edges g tid =
     [nat (vertexArray g ! tid) ..<
      nat (if int tid + 1 < vertexCount g then vertexArray g ! (tid + 1) else edgeCount g)]"

definition relax_spec ::
  "'f GraphData \<Rightarrow> nat \<Rightarrow> nat \<Rightarrow> ('f::{linorder,plus,zero}) buffers \<Rightarrow> 'f buffers" where
  "relax_spec g tid e b =
     (let nid = nat (edgeArray g ! e)
      in b\<lparr>updatingCostArray := (updatingCostArray b)
            [nid := min (updatingCostArray b ! nid) (costArray b ! tid + weightArray g ! e)]\<rparr>)"

definition phase1_vertex_spec ::
  "'f GraphData \<Rightarrow> nat \<Rightarrow> ('f::{linorder,plus,zero}) buffers \<Rightarrow> 'f buffers" where
  "phase1_vertex_spec g tid b =
     (if maskArray b ! tid = 1
      then fold (relax_spec g tid) (out_edges g tid) (b\<lparr>maskArray := (maskArray b)[tid := 0]\<rparr>)
      else b)"

definition phase1_spec ::
  "'f GraphData \<Rightarrow> ('f::{linorder,plus,zero}) buffers \<Rightarrow> 'f buffers" where
  "phase1_spec g b = fold (phase1_vertex_spec g) [0..<nat (vertexCount g)] b"

text \<open>
  The spec's phase 2, entry by entry: where \<open>cost[tid] > updatingCost[tid]\<close> the cost
  becomes the updating cost and the mask becomes 1; in every case the updating cost ends
  equal to the cost.
\<close>

definition phase2_spec :: "nat \<Rightarrow> ('f::{linorder,plus,zero}) buffers \<Rightarrow> 'f buffers" where
  "phase2_spec n b =
     \<lparr>maskArray = map (\<lambda>tid. if costArray b ! tid > updatingCostArray b ! tid then 1
                              else maskArray b ! tid) [0..<n],
      costArray = map (\<lambda>tid. if costArray b ! tid > updatingCostArray b ! tid
                              then updatingCostArray b ! tid else costArray b ! tid) [0..<n],
      updatingCostArray = map (\<lambda>tid. if costArray b ! tid > updatingCostArray b ! tid
                              then updatingCostArray b ! tid else costArray b ! tid) [0..<n]\<rparr>"

text \<open>The same commit for a single vertex, as the sequential sweep performs it.\<close>

definition commit_vertex :: "nat \<Rightarrow> ('f::{linorder,plus,zero}) buffers \<Rightarrow> 'f buffers" where
  "commit_vertex tid b =
     (let b1 = (if costArray b ! tid > updatingCostArray b ! tid
                then b\<lparr>maskArray := (maskArray b)[tid := 1],
                       costArray := (costArray b)[tid := updatingCostArray b ! tid]\<rparr>
                else b)
      in b1\<lparr>updatingCostArray := (updatingCostArray b1)[tid := costArray b1 ! tid]\<rparr>)"

text \<open>
  A candidate for vertex \<open>v\<close>: the cost of an active vertex below \<open>i\<close> plus the
  weight of one of its edges into \<open>v\<close>.
\<close>

definition candidate ::
  "'f GraphData \<Rightarrow> ('f::{linorder,plus,zero}) buffers \<Rightarrow> nat \<Rightarrow> nat \<Rightarrow> 'f \<Rightarrow> bool" where
  "candidate g b i v x \<longleftrightarrow>
     (\<exists>tid<i. maskArray b ! tid = 1 \<and>
        (\<exists>e\<in>set (out_edges g tid). nat (edgeArray g ! e) = v \<and>
           x = costArray b ! tid + weightArray g ! e))"

section \<open>The per-query loop\<close>

text \<open>
  The spec's initialisation for source \<open>s\<close>: the source gets mask 1 and cost 0, every
  other vertex mask 0 and cost \<open>FLT_MAX\<close>.
\<close>

definition init_spec :: "'f \<Rightarrow> nat \<Rightarrow> int \<Rightarrow> ('f::{linorder,plus,zero}) buffers" where
  "init_spec FLT_MAX n s =
     \<lparr>maskArray = map (\<lambda>v. if int v = s then 1 else 0) [0..<n],
      costArray = map (\<lambda>v. if int v = s then 0 else FLT_MAX) [0..<n],
      updatingCostArray = map (\<lambda>v. if int v = s then 0 else FLT_MAX) [0..<n]\<rparr>"

definition iteration_spec ::
  "'f GraphData \<Rightarrow> ('f::{linorder,plus,zero}) buffers \<Rightarrow> 'f buffers" where
  "iteration_spec g b = phase2_spec (nat (vertexCount g)) (phase1_spec g b)"

text \<open>\<open>k\<close> passes through the body of the while loop.\<close>

fun iterations ::
  "'f GraphData \<Rightarrow> nat \<Rightarrow> ('f::{linorder,plus,zero}) buffers \<Rightarrow> 'f buffers option" where
  "iterations g 0 b = Some b"
| "iterations g (Suc k) b = (case iteration g b of None \<Rightarrow> None | Some b' \<Rightarrow> iterations g k b')"

text \<open>
  The state at the head of the while loop: arrays of the right size, a mask of 0s and 1s,
  and the updating costs equal to the costs.
\<close>

definition synced :: "nat \<Rightarrow> 'f buffers \<Rightarrow> bool" where
  "synced n b \<longleftrightarrow> sized n b \<and> mask01 b \<and> updatingCostArray b = costArray b"

text \<open>
  The progress measure of the loop: after \<open>k\<close> iterations every active vertex has
  more than \<open>k\<close> vertices whose cost is at most its own.
\<close>

definition crowded :: "nat \<Rightarrow> nat \<Rightarrow> ('f::{linorder,plus,zero}) buffers \<Rightarrow> bool" where
  "crowded k n b \<longleftrightarrow>
     (\<forall>v<n. maskArray b ! v = 1 \<longrightarrow>
        k < card {x. x < n \<and> costArray b ! x \<le> costArray b ! v})"



definition nonneg_weights :: "('f::{linorder,plus,zero}) GraphData \<Rightarrow> bool" where
  "nonneg_weights g \<longleftrightarrow> (\<forall>w\<in>set (weightArray g). 0 \<le> w)"


text \<open>
  The states of the working arrays that the loop of one query passes through: at the head
  of the while loop (\<open>Head\<close>) and between the two sweeps (\<open>Mid\<close>). The arrays
  were allocated with \<open>vertexCount\<close> entries; what they hold before the initialisation
  is arbitrary.
\<close>

datatype point = Head | Mid

inductive loop_state ::
  "'f \<Rightarrow> 'f GraphData \<Rightarrow> int list \<Rightarrow> int \<Rightarrow> point \<Rightarrow> ('f::{linorder,plus,zero}) buffers \<Rightarrow> bool"
  for FLT_MAX :: 'f and g :: "'f GraphData" and sourceVertices :: "int list" and i :: int where
  initialised:
    "sized (nat (vertexCount g)) b \<Longrightarrow> init_buffers FLT_MAX g sourceVertices i b = Some b0 \<Longrightarrow>
     loop_state FLT_MAX g sourceVertices i Head b0"
| swept1:
    "loop_state FLT_MAX g sourceVertices i Head b \<Longrightarrow>
     maskArrayEmpty (maskArray b) (vertexCount g) = Some False \<Longrightarrow>
     kernel1 g b = Some b1 \<Longrightarrow>
     loop_state FLT_MAX g sourceVertices i Mid b1"
| swept2:
    "loop_state FLT_MAX g sourceVertices i Mid b1 \<Longrightarrow> kernel2 g b1 = Some b2 \<Longrightarrow>
     loop_state FLT_MAX g sourceVertices i Head b2"

section \<open>Example inputs\<close>

text \<open>
  The value of \<open>FLT_MAX\<close>, \<open>(2 - 2\<^sup>-\<^sup>2\<^sup>3) \<sqdot> 2\<^sup>1\<^sup>2\<^sup>7\<close>, which is an integer; on the small
  integer weights of the examples float addition is exact, so the examples run on \<open>int\<close>.
\<close>

definition flt_max :: int where
  "flt_max = 340282346638528859811704183484516925440"

text \<open>Example 1 of the spec: the triangle with edges 0\<rightarrow>1 (1), 0\<rightarrow>2 (4) and 1\<rightarrow>2 (2).\<close>

definition triangle :: "int GraphData" where
  "triangle = \<lparr>vertexArray = [0, 2, 3], vertexCount = 3,
                edgeArray = [1, 2, 2], edgeCount = 3, weightArray = [1, 4, 2]\<rparr>"


text \<open>The working arrays as \<open>runDijkstraRef\<close> allocates them for three vertices.\<close>

definition fresh3 :: "int buffers" where
  "fresh3 = \<lparr>maskArray = [0, 0, 0], costArray = [0, 0, 0], updatingCostArray = [0, 0, 0]\<rparr>"

text \<open>The triangle's arrays for source 0: initialised, after the first sweep, after the second.\<close>

definition tri_init :: "int buffers" where
  "tri_init = \<lparr>maskArray = [1, 0, 0], costArray = [0, flt_max, flt_max],
                updatingCostArray = [0, flt_max, flt_max]\<rparr>"

definition tri_mid :: "int buffers" where
  "tri_mid = \<lparr>maskArray = [0, 0, 0], costArray = [0, flt_max, flt_max],
               updatingCostArray = [0, 1, 4]\<rparr>"

definition tri_next :: "int buffers" where
  "tri_next = \<lparr>maskArray = [0, 1, 1], costArray = [0, 1, 4], updatingCostArray = [0, 1, 4]\<rparr>"

text \<open>The triangle's arrays when the loop of source 0 ends.\<close>

definition tri_final :: "int buffers" where
  "tri_final = \<lparr>maskArray = [0, 0, 0], costArray = [0, 1, 3], updatingCostArray = [0, 1, 3]\<rparr>"




section \<open>Reads, writes and loops\<close>

lemma rd_Some: "rd xs i = Some x \<longleftrightarrow> 0 \<le> i \<and> i < int (length xs) \<and> x = xs ! nat i"
  by (auto simp: rd_def)

lemma wr_Some: "wr xs i v = Some ys \<longleftrightarrow> 0 \<le> i \<and> i < int (length xs) \<and> ys = xs[nat i := v]"
  by (auto simp: wr_def)

lemma rd_in: "0 \<le> i \<Longrightarrow> i < int (length xs) \<Longrightarrow> rd xs i = Some (xs ! nat i)"
  by (simp add: rd_def)

lemma wr_in: "0 \<le> i \<Longrightarrow> i < int (length xs) \<Longrightarrow> wr xs i v = Some (xs[nat i := v])"
  by (simp add: wr_def)

lemma for_loop_done: "hi \<le> i \<Longrightarrow> for_loop i hi body s = Some s"
  by (simp add: for_loop.simps)

lemma for_loop_step:
  "i < hi \<Longrightarrow> for_loop i hi body s = (case body i s of None \<Rightarrow> None | Some s' \<Rightarrow> for_loop (i + 1) hi body s')"
  by (subst for_loop.simps) simp

text \<open>An invariant of the state alone carries through a loop that returns.\<close>

lemma for_loop_preserves:
  assumes "for_loop lo hi body s = Some s'" and "P s"
    and "\<And>i t t'. lo \<le> i \<Longrightarrow> i < hi \<Longrightarrow> P t \<Longrightarrow> body i t = Some t' \<Longrightarrow> P t'"
  shows "P s'"
  using assms
proof (induction lo hi body s rule: for_loop.induct)
  case (1 i hi body s)
  show ?case
  proof (cases "i < hi")
    case False
    with "1.prems" show ?thesis by (simp add: for_loop_done)
  next
    case True
    from "1.prems"(1) True obtain t where t: "body i s = Some t" and r: "for_loop (i + 1) hi body t = Some s'"
      by (auto simp: for_loop_step split: option.splits)
    have "P t" using "1.prems"(3)[OF _ True "1.prems"(2) t] by simp
    show ?thesis
    proof (rule "1.IH"[OF True t r \<open>P t\<close>])
      fix j u u' assume "i + 1 \<le> j" "j < hi" "P u" "body j u = Some u'"
      then show "P u'" using "1.prems"(3)[of j u u'] by simp
    qed
  qed
qed

text \<open>A loop whose body agrees with a pure step is the fold of that step.\<close>

lemma for_loop_fold:
  assumes "0 \<le> lo" and "P s"
    and "\<And>i t. lo \<le> i \<Longrightarrow> i < hi \<Longrightarrow> P t \<Longrightarrow> body i t = Some (f (nat i) t) \<and> P (f (nat i) t)"
  shows "for_loop lo hi body s = Some (fold f [nat lo..<nat hi] s) \<and> P (fold f [nat lo..<nat hi] s)"
  using assms
proof (induction lo hi body s rule: for_loop.induct)
  case (1 i hi body s)
  show ?case
  proof (cases "i < hi")
    case False
    with "1.prems" show ?thesis by (simp add: for_loop_done)
  next
    case True
    have b: "body i s = Some (f (nat i) s)" and p: "P (f (nat i) s)"
      using "1.prems"(3)[OF _ True "1.prems"(2)] by simp_all
    have "for_loop (i + 1) hi body (f (nat i) s) =
            Some (fold f [nat (i + 1)..<nat hi] (f (nat i) s)) \<and>
          P (fold f [nat (i + 1)..<nat hi] (f (nat i) s))"
    proof (rule "1.IH"[OF True b _ p])
      show "0 \<le> i + 1" using "1.prems"(1) by simp
      fix j u assume "i + 1 \<le> j" "j < hi" "P u"
      then show "body j u = Some (f (nat j) u) \<and> P (f (nat j) u)"
        using "1.prems"(3)[of j u] by simp
    qed
    moreover have "nat (i + 1) = Suc (nat i)" "nat i < nat hi"
      using True "1.prems"(1) by linarith+
    then have "[nat i..<nat hi] = nat i # [nat (i + 1)..<nat hi]"
      by (simp only: upt_conv_Cons)
    ultimately show ?thesis
      using True b by (simp add: for_loop_step)
  qed
qed

lemma fold_upt_invariant:
  assumes "I lo s" and "lo \<le> hi"
    and "\<And>i t. lo \<le> i \<Longrightarrow> i < hi \<Longrightarrow> I i t \<Longrightarrow> I (Suc i) (f i t)"
  shows "I hi (fold f [lo..<hi] s)"
  using assms(2,3)
proof (induction hi)
  case 0
  with assms(1) show ?case by simp
next
  case (Suc hi)
  show ?case
  proof (cases "lo = Suc hi")
    case True
    with assms(1) show ?thesis by simp
  next
    case False
    with Suc.prems have le: "lo \<le> hi" by simp
    have "I hi (fold f [lo..<hi] s)"
      by (rule Suc.IH[OF le]) (use Suc.prems(2) in auto)
    then show ?thesis
      using le Suc.prems(2)[of hi] by simp
  qed
qed

section \<open>The first sweep refines the spec's phase 1\<close>

lemma sized_simps [simp]:
  "sized n (b\<lparr>updatingCostArray := u\<rparr>) \<longleftrightarrow> sized n b \<and> length u = n \<or> length (maskArray b) = n \<and> length (costArray b) = n \<and> length u = n"
  "sized n (b\<lparr>maskArray := m\<rparr>) \<longleftrightarrow> length m = n \<and> length (costArray b) = n \<and> length (updatingCostArray b) = n"
  "sized n (b\<lparr>costArray := c\<rparr>) \<longleftrightarrow> length (maskArray b) = n \<and> length c = n \<and> length (updatingCostArray b) = n"
  by (auto simp: sized_def)

lemma csr_edge:
  assumes "csr_invariants g" "e < nat (edgeCount g)"
  shows "0 \<le> edgeArray g ! e" "edgeArray g ! e < vertexCount g" "e < length (edgeArray g)" "e < length (weightArray g)"
  using assms by (auto simp: csr_invariants_def)

lemma csr_vertex:
  assumes "csr_invariants g" "tid < nat (vertexCount g)"
  shows "0 \<le> vertexArray g ! tid" "vertexArray g ! tid \<le> edgeCount g" "tid < length (vertexArray g)"
  using assms by (auto simp: csr_invariants_def)

lemma relax_edge_refines:
  assumes g: "csr_invariants g" and b: "sized (nat (vertexCount g)) b"
    and tid: "0 \<le> tid" "tid < vertexCount g" and e: "0 \<le> e" "e < edgeCount g"
  shows "relax_edge g tid e b = Some (relax_spec g (nat tid) (nat e) b)"
proof -
  have en: "nat e < nat (edgeCount g)" using e by simp
  note ce = csr_edge[OF g en]
  have 1: "rd (edgeArray g) e = Some (edgeArray g ! nat e)"
    using e ce by (simp add: rd_def)
  have 2: "rd (weightArray g) e = Some (weightArray g ! nat e)"
    using e ce by (simp add: rd_def)
  have nid: "0 \<le> edgeArray g ! nat e" "edgeArray g ! nat e < int (length (updatingCostArray b))"
    using ce b by (simp_all add: sized_def)
  have 3: "rd (costArray b) tid = Some (costArray b ! nat tid)"
    using tid b by (simp add: rd_def sized_def)
  show ?thesis
    unfolding relax_edge_def relax_spec_def
    using nid by (simp add: 1 2 3 rd_in wr_in Let_def min_def not_le)
qed

lemma relax_spec_sized: "sized n b \<Longrightarrow> sized n (relax_spec g tid e b)"
  by (simp add: relax_spec_def sized_def Let_def)

lemma fold_relax_spec_sized: "sized n b \<Longrightarrow> sized n (fold (relax_spec g tid) es b)"
  by (induction es arbitrary: b) (simp_all add: relax_spec_sized)

lemma relax_spec_mask [simp]: "maskArray (relax_spec g tid e b) = maskArray b"
  by (simp add: relax_spec_def Let_def)

lemma fold_relax_spec_mask [simp]: "maskArray (fold (relax_spec g tid) es b) = maskArray b"
  by (induction es arbitrary: b) simp_all

lemma relax_spec_cost [simp]: "costArray (relax_spec g tid e b) = costArray b"
  by (simp add: relax_spec_def Let_def)

lemma fold_relax_spec_cost [simp]: "costArray (fold (relax_spec g tid) es b) = costArray b"
  by (induction es arbitrary: b) simp_all

lemma kernel1_vertex_refines:
  assumes g: "csr_invariants g" and b: "sized (nat (vertexCount g)) b" and m: "mask01 b"
    and tid: "0 \<le> tid" "tid < vertexCount g"
  shows "kernel1_vertex g tid b = Some (phase1_vertex_spec g (nat tid) b)"
proof -
  let ?n = "nat (vertexCount g)"
  have tn: "nat tid < ?n" using tid by simp
  note cv = csr_vertex[OF g tn]
  have rm: "rd (maskArray b) tid = Some (maskArray b ! nat tid)"
    using tid b by (simp add: rd_def sized_def)
  have m01: "maskArray b ! nat tid = 0 \<or> maskArray b ! nat tid = 1"
    using m b tn by (simp add: mask01_def sized_def)
  show ?thesis
  proof (cases "maskArray b ! nat tid = 1")
    case False
    with m01 show ?thesis
      by (simp add: kernel1_vertex_def phase1_vertex_spec_def rm)
  next
    case True
    let ?b1 = "b\<lparr>maskArray := (maskArray b)[nat tid := 0]\<rparr>"
    let ?hi = "if tid + 1 < vertexCount g then vertexArray g ! nat (tid + 1) else edgeCount g"
    have wm: "wr (maskArray b) tid 0 = Some ((maskArray b)[nat tid := 0])"
      using tid b by (simp add: wr_def sized_def)
    have rs: "rd (vertexArray g) tid = Some (vertexArray g ! nat tid)"
      using tid cv by (simp add: rd_def)
    have re: "(if tid + 1 < vertexCount g then rd (vertexArray g) (tid + 1) else Some (edgeCount g)) = Some ?hi"
      using tid g by (simp add: rd_def csr_invariants_def)
    have hi: "?hi \<le> edgeCount g"
    proof (cases "tid + 1 < vertexCount g")
      case True
      then have "nat (tid + 1) < ?n" using tid by simp
      from csr_vertex(2)[OF g this] True show ?thesis by simp
    qed simp
    have b1: "sized ?n ?b1" using b by (simp add: sized_def)
    have loop: "for_loop (vertexArray g ! nat tid) ?hi (relax_edge g tid) ?b1 =
                  Some (fold (relax_spec g (nat tid)) [nat (vertexArray g ! nat tid)..<nat ?hi] ?b1) \<and>
                sized ?n (fold (relax_spec g (nat tid)) [nat (vertexArray g ! nat tid)..<nat ?hi] ?b1)"
    proof (rule for_loop_fold[where P = "sized ?n"])
      show "0 \<le> vertexArray g ! nat tid" by (rule cv)
      show "sized ?n ?b1" by (rule b1)
      fix e and t :: "'a buffers"
      assume e: "vertexArray g ! nat tid \<le> e" "e < ?hi" and t: "sized ?n t"
      have "0 \<le> e" "e < edgeCount g" using e cv(1) hi by linarith+
      then show "relax_edge g tid e t = Some (relax_spec g (nat tid) (nat e) t) \<and>
                 sized ?n (relax_spec g (nat tid) (nat e) t)"
        using relax_edge_refines[OF g t tid] relax_spec_sized[OF t] by simp
    qed
    have oe: "out_edges g (nat tid) = [nat (vertexArray g ! nat tid)..<nat ?hi]"
      using tid by (simp add: out_edges_def nat_add_distrib)
    show ?thesis
      using True loop
      by (simp add: kernel1_vertex_def phase1_vertex_spec_def rm wm rs re oe)
  qed
qed

lemma phase1_vertex_spec_sized: "sized n b \<Longrightarrow> sized n (phase1_vertex_spec g tid b)"
proof -
  assume b: "sized n b"
  then have "sized n (b\<lparr>maskArray := (maskArray b)[tid := 0]\<rparr>)"
    by (simp add: sized_def)
  then have "sized n (fold (relax_spec g tid) (out_edges g tid) (b\<lparr>maskArray := (maskArray b)[tid := 0]\<rparr>))"
    by (rule fold_relax_spec_sized)
  with b show ?thesis by (simp add: phase1_vertex_spec_def)
qed

lemma phase1_vertex_spec_mask01: "mask01 b \<Longrightarrow> mask01 (phase1_vertex_spec g tid b)"
  by (auto simp: phase1_vertex_spec_def mask01_def dest!: set_update_subset_insert[THEN subsetD])

lemma kernel1_refines:
  assumes g: "csr_invariants g" and b: "sized (nat (vertexCount g)) b" and m: "mask01 b"
  shows "kernel1 g b = Some (phase1_spec g b)"
proof -
  let ?n = "nat (vertexCount g)"
  have "for_loop 0 (vertexCount g) (kernel1_vertex g) b =
          Some (fold (phase1_vertex_spec g) [nat 0..<?n] b) \<and>
        (sized ?n (fold (phase1_vertex_spec g) [nat 0..<?n] b) \<and>
         mask01 (fold (phase1_vertex_spec g) [nat 0..<?n] b))"
  proof (rule for_loop_fold[where P = "\<lambda>t. sized ?n t \<and> mask01 t"])
    show "(0::int) \<le> 0" by simp
    show "sized ?n b \<and> mask01 b" using b m by simp
    fix tid and t :: "'a buffers"
    assume "0 \<le> tid" "tid < vertexCount g" "sized ?n t \<and> mask01 t"
    then show "kernel1_vertex g tid t = Some (phase1_vertex_spec g (nat tid) t) \<and>
               sized ?n (phase1_vertex_spec g (nat tid) t) \<and> mask01 (phase1_vertex_spec g (nat tid) t)"
      using kernel1_vertex_refines[OF g] phase1_vertex_spec_sized phase1_vertex_spec_mask01 by blast
  qed
  then show ?thesis by (simp add: kernel1_def phase1_spec_def)
qed

section \<open>The second sweep refines the spec's phase 2\<close>

lemma kernel2_vertex_refines:
  assumes "sized n b" "0 \<le> tid" "tid < int n"
  shows "kernel2_vertex tid b = Some (commit_vertex (nat tid) b)"
  using assms
  by (simp add: kernel2_vertex_def commit_vertex_def sized_def rd_in wr_in Let_def)

lemma commit_vertex_sized: "sized n b \<Longrightarrow> sized n (commit_vertex tid b)"
  by (simp add: commit_vertex_def sized_def Let_def)

lemma commit_vertex_nth:
  assumes "sized n b" "tid < n" "v < n"
  shows "maskArray (commit_vertex tid b) ! v =
           (if v = tid \<and> costArray b ! tid > updatingCostArray b ! tid then 1 else maskArray b ! v)"
    and "costArray (commit_vertex tid b) ! v =
           (if v = tid \<and> costArray b ! tid > updatingCostArray b ! tid
            then updatingCostArray b ! tid else costArray b ! v)"
    and "updatingCostArray (commit_vertex tid b) ! v =
           (if v = tid then (if costArray b ! tid > updatingCostArray b ! tid
                             then updatingCostArray b ! tid else costArray b ! tid)
            else updatingCostArray b ! v)"
  using assms by (auto simp: commit_vertex_def sized_def Let_def nth_list_update)

lemma fold_commit_vertex:
  assumes b: "sized n b"
  shows "fold commit_vertex [0..<n] b = phase2_spec n b"
proof -
  let ?I = "\<lambda>i t. sized n t \<and> (\<forall>v<n.
      maskArray t ! v = (if v < i then maskArray (phase2_spec n b) ! v else maskArray b ! v) \<and>
      costArray t ! v = (if v < i then costArray (phase2_spec n b) ! v else costArray b ! v) \<and>
      updatingCostArray t ! v =
        (if v < i then updatingCostArray (phase2_spec n b) ! v else updatingCostArray b ! v))"
  have "?I n (fold commit_vertex [0..<n] b)"
  proof (rule fold_upt_invariant[where I = ?I])
    show "?I 0 b" using b by simp
    show "0 \<le> n" by simp
    fix i and t :: "'a buffers"
    assume i: "0 \<le> i" "i < n" and t: "?I i t"
    from t have st: "sized n t" by simp
    show "?I (Suc i) (commit_vertex i t)"
    proof (intro conjI allI impI)
      show "sized n (commit_vertex i t)" by (rule commit_vertex_sized[OF st])
    next
      fix v assume v: "v < n"
      from t i have ti: "maskArray t ! i = maskArray b ! i" "costArray t ! i = costArray b ! i"
        "updatingCostArray t ! i = updatingCostArray b ! i" by simp_all
      from t v have tv: "maskArray t ! v = (if v < i then maskArray (phase2_spec n b) ! v else maskArray b ! v)"
        "costArray t ! v = (if v < i then costArray (phase2_spec n b) ! v else costArray b ! v)"
        "updatingCostArray t ! v = (if v < i then updatingCostArray (phase2_spec n b) ! v else updatingCostArray b ! v)"
        by simp_all
      show "maskArray (commit_vertex i t) ! v =
         (if v < Suc i then maskArray (phase2_spec n b) ! v else maskArray b ! v)"
        using v i by (simp add: commit_vertex_nth(1)[OF st i(2) v] ti tv phase2_spec_def less_Suc_eq)
      show "costArray (commit_vertex i t) ! v =
         (if v < Suc i then costArray (phase2_spec n b) ! v else costArray b ! v)"
        using v i by (simp add: commit_vertex_nth(2)[OF st i(2) v] ti tv phase2_spec_def less_Suc_eq)
      show "updatingCostArray (commit_vertex i t) ! v =
         (if v < Suc i then updatingCostArray (phase2_spec n b) ! v else updatingCostArray b ! v)"
        using v i by (auto simp add: commit_vertex_nth(3)[OF st i(2) v] ti tv phase2_spec_def less_Suc_eq)
    qed
  qed
  then have s: "sized n (fold commit_vertex [0..<n] b)"
    and e: "\<And>v. v < n \<Longrightarrow> maskArray (fold commit_vertex [0..<n] b) ! v = maskArray (phase2_spec n b) ! v"
      "\<And>v. v < n \<Longrightarrow> costArray (fold commit_vertex [0..<n] b) ! v = costArray (phase2_spec n b) ! v"
      "\<And>v. v < n \<Longrightarrow> updatingCostArray (fold commit_vertex [0..<n] b) ! v = updatingCostArray (phase2_spec n b) ! v"
    by simp_all
  have "maskArray (fold commit_vertex [0..<n] b) = maskArray (phase2_spec n b)"
    using s e(1) by (intro nth_equalityI) (simp_all add: sized_def phase2_spec_def)
  moreover have "costArray (fold commit_vertex [0..<n] b) = costArray (phase2_spec n b)"
    using s e(2) by (intro nth_equalityI) (simp_all add: sized_def phase2_spec_def)
  moreover have "updatingCostArray (fold commit_vertex [0..<n] b) = updatingCostArray (phase2_spec n b)"
    using s e(3) by (intro nth_equalityI) (simp_all add: sized_def phase2_spec_def)
  ultimately show ?thesis by (intro buffers.equality) simp_all
qed

lemma kernel2_refines:
  assumes b: "sized (nat (vertexCount g)) b"
  shows "kernel2 g b = Some (phase2_spec (nat (vertexCount g)) b)"
proof -
  let ?n = "nat (vertexCount g)"
  have "for_loop 0 (vertexCount g) kernel2_vertex b = Some (fold commit_vertex [nat 0..<?n] b) \<and>
        sized ?n (fold commit_vertex [nat 0..<?n] b)"
  proof (rule for_loop_fold[where P = "sized ?n"])
    show "(0::int) \<le> 0" by simp
    show "sized ?n b" by (rule b)
    fix tid and t :: "'a buffers"
    assume "0 \<le> tid" "tid < vertexCount g" "sized ?n t"
    then show "kernel2_vertex tid t = Some (commit_vertex (nat tid) t) \<and> sized ?n (commit_vertex (nat tid) t)"
      using kernel2_vertex_refines[of ?n t tid] commit_vertex_sized[of ?n t] by simp
  qed
  then show ?thesis using b by (simp add: kernel2_def fold_commit_vertex)
qed

lemma phase2_spec_sized [simp]: "sized n (phase2_spec n b)"
  by (simp add: sized_def phase2_spec_def)

lemma phase1_spec_sized: "sized n b \<Longrightarrow> sized n (phase1_spec g b)"
  unfolding phase1_spec_def by (rule fold_invariant) (simp_all add: phase1_vertex_spec_sized)

lemma phase1_spec_mask01: "mask01 b \<Longrightarrow> mask01 (phase1_spec g b)"
  unfolding phase1_spec_def by (rule fold_invariant) (simp_all add: phase1_vertex_spec_mask01)

text \<open>The convergence test\<close>

lemma maskArrayEmpty_from_eq:
  assumes "0 \<le> i" "count \<le> int (length m)"
  shows "maskArrayEmpty_from m count i = Some (\<forall>j. nat i \<le> j \<and> j < nat count \<longrightarrow> m ! j \<noteq> 1)"
  using assms
proof (induction m count i rule: maskArrayEmpty_from.induct)
  case (1 m count i)
  show ?case
  proof (cases "i < count")
    case False
    then show ?thesis by (subst maskArrayEmpty_from.simps) auto
  next
    case True
    with "1.prems" have r: "rd m i = Some (m ! nat i)" by (simp add: rd_def)
    show ?thesis
    proof (cases "m ! nat i = 1")
      case one: True
      have "\<not> (\<forall>j. nat i \<le> j \<and> j < nat count \<longrightarrow> m ! j \<noteq> 1)"
        using one True "1.prems"(1) by (intro notI) (auto dest!: spec[of _ "nat i"])
      then show ?thesis using True one r by (subst maskArrayEmpty_from.simps) simp
    next
      case False
      have ih: "maskArrayEmpty_from m count (i + 1) = Some (\<forall>j. nat (i + 1) \<le> j \<and> j < nat count \<longrightarrow> m ! j \<noteq> 1)"
        using "1.IH"[OF True r False] "1.prems" by simp
      have "(\<forall>j. nat (i + 1) \<le> j \<and> j < nat count \<longrightarrow> m ! j \<noteq> 1) \<longleftrightarrow>
            (\<forall>j. nat i \<le> j \<and> j < nat count \<longrightarrow> m ! j \<noteq> 1)"
      proof -
        have "nat (i + 1) = Suc (nat i)" using "1.prems"(1) by linarith
        then have "\<And>j. nat (i + 1) \<le> j \<longleftrightarrow> nat i \<le> j \<and> j \<noteq> nat i" by auto
        then show ?thesis using False by auto
      qed
      then show ?thesis using True False r ih by (subst maskArrayEmpty_from.simps) simp
    qed
  qed
qed

lemma maskArrayEmpty_eq:
  "count \<le> int (length m) \<Longrightarrow> maskArrayEmpty m count = Some (\<forall>j<nat count. m ! j \<noteq> 1)"
  by (simp add: maskArrayEmpty_def maskArrayEmpty_from_eq)

section \<open>What the first sweep does to each entry\<close>

text \<open>What the first sweep does to one entry of updatingCostArray.\<close>

lemma relax_spec_nth:
  assumes "v < length (updatingCostArray b)"
  shows "updatingCostArray (relax_spec g tid e b) ! v =
           (if v = nat (edgeArray g ! e)
            then min (updatingCostArray b ! v) (costArray b ! tid + weightArray g ! e)
            else updatingCostArray b ! v)"
  using assms by (simp add: relax_spec_def Let_def nth_list_update)

lemma relax_spec_length [simp]:
  "length (updatingCostArray (relax_spec g tid e b)) = length (updatingCostArray b)"
  by (simp add: relax_spec_def Let_def)

lemma fold_relax_spec_nth:
  assumes "v < length (updatingCostArray b)"
  shows "updatingCostArray (fold (relax_spec g tid) es b) ! v \<le> updatingCostArray b ! v \<and>
         (updatingCostArray (fold (relax_spec g tid) es b) ! v = updatingCostArray b ! v \<or>
          (\<exists>e\<in>set es. nat (edgeArray g ! e) = v \<and>
             updatingCostArray (fold (relax_spec g tid) es b) ! v =
               costArray b ! tid + weightArray g ! e))"
  using assms
proof (induction es arbitrary: b)
  case Nil
  then show ?case by simp
next
  case (Cons e es)
  let ?b1 = "relax_spec g tid e b"
  let ?r = "fold (relax_spec g tid) es ?b1"
  have v1: "v < length (updatingCostArray ?b1)" using Cons.prems by simp
  note ih = Cons.IH[OF v1]
  have n1: "updatingCostArray ?b1 ! v =
      (if v = nat (edgeArray g ! e)
       then min (updatingCostArray b ! v) (costArray b ! tid + weightArray g ! e)
       else updatingCostArray b ! v)"
    by (rule relax_spec_nth[OF Cons.prems])
  have le1: "updatingCostArray ?b1 ! v \<le> updatingCostArray b ! v"
    by (simp add: n1)
  have c1: "updatingCostArray ?b1 ! v = updatingCostArray b ! v \<or>
            (nat (edgeArray g ! e) = v \<and>
             updatingCostArray ?b1 ! v = costArray b ! tid + weightArray g ! e)"
    by (auto simp: n1 min_def)
  have "updatingCostArray ?r ! v \<le> updatingCostArray b ! v"
    using ih le1 by (blast intro: order_trans)
  moreover have "updatingCostArray ?r ! v = updatingCostArray b ! v \<or>
          (\<exists>e'\<in>set (e # es). nat (edgeArray g ! e') = v \<and>
             updatingCostArray ?r ! v = costArray b ! tid + weightArray g ! e')"
  proof -
    from ih have "updatingCostArray ?r ! v = updatingCostArray ?b1 ! v \<or>
          (\<exists>e'\<in>set es. nat (edgeArray g ! e') = v \<and>
             updatingCostArray ?r ! v = costArray b ! tid + weightArray g ! e')"
      by simp
    then show ?thesis
    proof
      assume "updatingCostArray ?r ! v = updatingCostArray ?b1 ! v"
      with c1 show ?thesis by auto
    next
      assume "\<exists>e'\<in>set es. nat (edgeArray g ! e') = v \<and>
             updatingCostArray ?r ! v = costArray b ! tid + weightArray g ! e'"
      then show ?thesis by auto
    qed
  qed
  ultimately show ?case by simp
qed

text \<open>
  A candidate for vertex \<open>v\<close>: the cost of an active vertex plus the weight of one of
  its edges into \<open>v\<close>.
\<close>

lemma candidate_mono: "candidate g b i v x \<Longrightarrow> i \<le> j \<Longrightarrow> candidate g b j v x"
  unfolding candidate_def by (meson less_le_trans)

lemma phase1_spec_props:
  assumes b: "sized n b" and n: "n = nat (vertexCount g)"
  shows "sized n (phase1_spec g b) \<and> costArray (phase1_spec g b) = costArray b \<and>
         (\<forall>v<n. maskArray (phase1_spec g b) ! v = (if maskArray b ! v = 1 then 0 else maskArray b ! v)) \<and>
         (\<forall>v<n. updatingCostArray (phase1_spec g b) ! v \<le> updatingCostArray b ! v \<and>
                (updatingCostArray (phase1_spec g b) ! v = updatingCostArray b ! v \<or>
                 candidate g b n v (updatingCostArray (phase1_spec g b) ! v)))"
proof -
  let ?I = "\<lambda>i t. sized n t \<and> costArray t = costArray b \<and>
         (\<forall>v<n. maskArray t ! v = (if v < i \<and> maskArray b ! v = 1 then 0 else maskArray b ! v)) \<and>
         (\<forall>v<n. updatingCostArray t ! v \<le> updatingCostArray b ! v \<and>
                (updatingCostArray t ! v = updatingCostArray b ! v \<or>
                 candidate g b i v (updatingCostArray t ! v)))"
  have "?I n (fold (phase1_vertex_spec g) [0..<n] b)"
  proof (rule fold_upt_invariant[where I = ?I])
    show "?I 0 b" using b by simp
    show "0 \<le> n" by simp
    fix i and t :: "'a buffers"
    assume i: "0 \<le> i" "i < n" and t: "?I i t"
    from t have st: "sized n t" and ct: "costArray t = costArray b"
      and mt: "\<And>v. v < n \<Longrightarrow> maskArray t ! v = (if v < i \<and> maskArray b ! v = 1 then 0 else maskArray b ! v)"
      and ut: "\<And>v. v < n \<Longrightarrow> updatingCostArray t ! v \<le> updatingCostArray b ! v"
      and ut': "\<And>v. v < n \<Longrightarrow> updatingCostArray t ! v = updatingCostArray b ! v \<or>
                 candidate g b i v (updatingCostArray t ! v)"
      by blast+
    have mi: "maskArray t ! i = maskArray b ! i" using mt[OF i(2)] by simp
    show "?I (Suc i) (phase1_vertex_spec g i t)"
    proof (cases "maskArray b ! i = 1")
      case False
      then have eq: "phase1_vertex_spec g i t = t" by (simp add: phase1_vertex_spec_def mi)
      have "\<And>v. v < n \<Longrightarrow> maskArray t ! v = (if v < Suc i \<and> maskArray b ! v = 1 then 0 else maskArray b ! v)"
        using mt False by (auto simp: less_Suc_eq)
      moreover have "\<And>v. v < n \<Longrightarrow> updatingCostArray t ! v = updatingCostArray b ! v \<or>
                 candidate g b (Suc i) v (updatingCostArray t ! v)"
        using ut' candidate_mono[of g b i _ _ "Suc i"] by fastforce
      ultimately show ?thesis using st ct ut by (simp add: eq)
    next
      case True
      let ?t1 = "t\<lparr>maskArray := (maskArray t)[i := 0]\<rparr>"
      let ?r = "fold (relax_spec g i) (out_edges g i) ?t1"
      have eq: "phase1_vertex_spec g i t = ?r" using True by (simp add: phase1_vertex_spec_def mi)
      have s1: "sized n ?t1" using st by (simp add: sized_def)
      have sr: "sized n ?r" by (rule fold_relax_spec_sized[OF s1])
      have cr: "costArray ?r = costArray b" using ct by simp
      have mr: "maskArray ?r = (maskArray t)[i := 0]" by simp
      have m: "maskArray ?r ! v = (if v < Suc i \<and> maskArray b ! v = 1 then 0 else maskArray b ! v)"
        if v: "v < n" for v
      proof (cases "v = i")
        case True
        with v st \<open>maskArray b ! i = 1\<close> show ?thesis by (simp add: mr sized_def)
      next
        case False
        with v st mt[OF v] show ?thesis by (auto simp: mr sized_def less_Suc_eq)
      qed
      have u: "updatingCostArray ?r ! v \<le> updatingCostArray b ! v \<and>
                (updatingCostArray ?r ! v = updatingCostArray b ! v \<or>
                 candidate g b (Suc i) v (updatingCostArray ?r ! v))" if v: "v < n" for v
      proof -
        have vl: "v < length (updatingCostArray ?t1)" using st v by (simp add: sized_def)
        from fold_relax_spec_nth[OF vl, of g i "out_edges g i"]
        have le: "updatingCostArray ?r ! v \<le> updatingCostArray t ! v"
          and ch: "updatingCostArray ?r ! v = updatingCostArray t ! v \<or>
            (\<exists>e\<in>set (out_edges g i). nat (edgeArray g ! e) = v \<and>
               updatingCostArray ?r ! v = costArray b ! i + weightArray g ! e)"
          by (simp_all add: ct)
        have "updatingCostArray ?r ! v \<le> updatingCostArray b ! v"
          using le ut[OF v] by (rule order_trans)
        moreover from ch have "updatingCostArray ?r ! v = updatingCostArray b ! v \<or>
                 candidate g b (Suc i) v (updatingCostArray ?r ! v)"
        proof
          assume a: "updatingCostArray ?r ! v = updatingCostArray t ! v"
          from ut'[OF v] show ?thesis
          proof
            assume "updatingCostArray t ! v = updatingCostArray b ! v"
            with a show ?thesis by simp
          next
            assume "candidate g b i v (updatingCostArray t ! v)"
            then have "candidate g b (Suc i) v (updatingCostArray t ! v)"
              by (rule candidate_mono) simp
            with a show ?thesis by simp
          qed
        next
          assume "\<exists>e\<in>set (out_edges g i). nat (edgeArray g ! e) = v \<and>
               updatingCostArray ?r ! v = costArray b ! i + weightArray g ! e"
          then have "candidate g b (Suc i) v (updatingCostArray ?r ! v)"
            unfolding candidate_def using True by (intro exI[of _ i]) auto
          then show ?thesis ..
        qed
        ultimately show ?thesis ..
      qed
      show ?thesis unfolding eq using sr cr m u by blast
    qed
  qed
  then show ?thesis by (simp add: phase1_spec_def n)
qed

section \<open>One iteration and the progress of the loop\<close>

lemma iteration_refines:
  assumes g: "csr_invariants g" and b: "sized (nat (vertexCount g)) b" and m: "mask01 b"
  shows "iteration g b = Some (iteration_spec g b)"
  using kernel1_refines[OF g b m] kernel2_refines[OF phase1_spec_sized[OF b]]
  by (simp add: iteration_def iteration_spec_def)

text \<open>One iteration from the head of the loop, entry by entry.\<close>

lemma iteration_spec_props:
  assumes b: "synced n b" and n: "n = nat (vertexCount g)"
  shows "synced n (iteration_spec g b)"
    and "\<And>v. v < n \<Longrightarrow> costArray (iteration_spec g b) ! v \<le> costArray b ! v"
    and "\<And>v. v < n \<Longrightarrow> maskArray (iteration_spec g b) ! v = 1 \<longleftrightarrow>
            costArray (iteration_spec g b) ! v < costArray b ! v"
    and "\<And>v. v < n \<Longrightarrow> maskArray (iteration_spec g b) ! v = 1 \<Longrightarrow>
            candidate g b n v (costArray (iteration_spec g b) ! v)"
proof -
  let ?b1 = "phase1_spec g b"
  let ?b2 = "iteration_spec g b"
  from b have sb: "sized n b" and mb: "mask01 b" and ub: "updatingCostArray b = costArray b"
    by (simp_all add: synced_def)
  note p1 = phase1_spec_props[OF sb n]
  from p1 have s1: "sized n ?b1" and c1: "costArray ?b1 = costArray b" by simp_all
  have m1: "maskArray ?b1 ! v = 0" if "v < n" for v
  proof -
    have "maskArray b ! v \<in> set (maskArray b)" using that sb by (simp add: sized_def)
    with mb have "maskArray b ! v = 0 \<or> maskArray b ! v = 1" by (simp add: mask01_def)
    with p1 that show ?thesis by auto
  qed
  have u1: "updatingCostArray ?b1 ! v \<le> costArray b ! v"
    and u1': "updatingCostArray ?b1 ! v = costArray b ! v \<or> candidate g b n v (updatingCostArray ?b1 ! v)"
    if "v < n" for v
    using p1 that ub by auto
  have e2: "?b2 = phase2_spec n ?b1" by (simp add: iteration_spec_def n)
  have c2: "costArray ?b2 ! v = (if costArray b ! v > updatingCostArray ?b1 ! v
                                   then updatingCostArray ?b1 ! v else costArray b ! v)"
    and m2: "maskArray ?b2 ! v = (if costArray b ! v > updatingCostArray ?b1 ! v then 1 else 0)"
    if "v < n" for v
    using that by (simp_all add: e2 phase2_spec_def c1 m1)
  have "mask01 ?b2"
    unfolding mask01_def e2 by (auto simp: phase2_spec_def m1)
  moreover have "updatingCostArray ?b2 = costArray ?b2"
    by (simp add: e2 phase2_spec_def)
  ultimately show "synced n ?b2" by (simp add: synced_def e2)
  show "costArray ?b2 ! v \<le> costArray b ! v" if "v < n" for v
    using that by (simp add: c2 less_imp_le)
  show "maskArray ?b2 ! v = 1 \<longleftrightarrow> costArray ?b2 ! v < costArray b ! v" if "v < n" for v
    using that by (simp add: c2 m2)
  show "candidate g b n v (costArray ?b2 ! v)" if "v < n" "maskArray ?b2 ! v = 1" for v
  proof -
    from that have lt: "costArray b ! v > updatingCostArray ?b1 ! v"
      by (simp add: m2 split: if_splits)
    then have "costArray ?b2 ! v = updatingCostArray ?b1 ! v" using that by (simp add: c2)
    moreover from u1'[OF that(1)] lt have "candidate g b n v (updatingCostArray ?b1 ! v)" by auto
    ultimately show ?thesis by simp
  qed
qed

text \<open>The progress measure grows with every iteration.\<close>

lemma crowded_step:
  fixes g :: "('f::{linorder,plus,zero}) GraphData"
  assumes b: "synced n b" and n: "n = nat (vertexCount g)" and k: "crowded k n b"
    and grow: "\<And>tid e. tid < n \<Longrightarrow> e \<in> set (out_edges g tid) \<Longrightarrow>
                 costArray b ! tid \<le> costArray b ! tid + weightArray g ! e"
  shows "crowded (Suc k) n (iteration_spec g b)"
  unfolding crowded_def
proof (intro allI impI)
  let ?b2 = "iteration_spec g b"
  note ip = iteration_spec_props[OF b n]
  fix v assume v: "v < n" and act: "maskArray ?b2 ! v = 1"
  from ip(4)[OF v act] obtain tid e where tid: "tid < n" "maskArray b ! tid = 1"
    and e: "e \<in> set (out_edges g tid)" and val: "costArray ?b2 ! v = costArray b ! tid + weightArray g ! e"
    by (auto simp: candidate_def)
  have ge: "costArray b ! tid \<le> costArray ?b2 ! v" using grow[OF tid(1) e] val by simp
  have lt: "costArray ?b2 ! v < costArray b ! v" using ip(3)[OF v] act by simp
  let ?S = "{x. x < n \<and> costArray b ! x \<le> costArray b ! tid}"
  let ?T = "{x. x < n \<and> costArray ?b2 ! x \<le> costArray ?b2 ! v}"
  have kS: "k < card ?S" using k tid by (simp add: crowded_def)
  have "v \<notin> ?S" using ge lt by auto
  moreover have "insert v ?S \<subseteq> ?T"
  proof
    fix x assume "x \<in> insert v ?S"
    then show "x \<in> ?T"
    proof
      assume "x = v" with v show ?thesis by simp
    next
      assume "x \<in> ?S"
      then have x: "x < n" "costArray b ! x \<le> costArray b ! tid" by simp_all
      from ip(2)[OF x(1)] x(2) ge have "costArray ?b2 ! x \<le> costArray ?b2 ! v"
        by (meson order_trans)
      with x(1) show ?thesis by simp
    qed
  qed
  moreover have "finite ?T" by simp
  ultimately have "card (insert v ?S) \<le> card ?T" by (intro card_mono)
  moreover have "card (insert v ?S) = Suc (card ?S)" using \<open>v \<notin> ?S\<close> by simp
  ultimately show "Suc k < card ?T" using kS by simp
qed

lemma crowded_bound:
  assumes "crowded k n b" "v < n" "maskArray b ! v = 1"
  shows "k < n"
proof -
  have "card {x. x < n \<and> costArray b ! x \<le> costArray b ! v} \<le> card {x. x < n}"
    by (intro card_mono) auto
  with assms show ?thesis by (auto simp: crowded_def)
qed

section \<open>Initialisation and termination of the while loop\<close>

text \<open>A loop whose body keeps an indexed invariant returns, with the invariant at its bound.\<close>

lemma for_loop_total:
  assumes "I lo s" and "lo \<le> hi"
    and "\<And>i t. lo \<le> i \<Longrightarrow> i < hi \<Longrightarrow> I i t \<Longrightarrow> \<exists>t'. body i t = Some t' \<and> I (i + 1) t'"
  shows "\<exists>s'. for_loop lo hi body s = Some s' \<and> I hi s'"
  using assms
proof (induction lo hi body s rule: for_loop.induct)
  case (1 i hi body s)
  show ?case
  proof (cases "i < hi")
    case False
    with "1.prems" have "i = hi" by simp
    with "1.prems"(1) show ?thesis by (simp add: for_loop_done)
  next
    case True
    from "1.prems"(3)[OF _ True "1.prems"(1)] obtain t where t: "body i s = Some t" "I (i + 1) t"
      by auto
    have "\<exists>s'. for_loop (i + 1) hi body t = Some s' \<and> I hi s'"
    proof (rule "1.IH"[OF True t(1) t(2)])
      show "i + 1 \<le> hi" using True by simp
      fix j u assume "i + 1 \<le> j" "j < hi" "I j u"
      then show "\<exists>t'. body j u = Some t' \<and> I (j + 1) t'"
        using "1.prems"(3)[of j u] by simp
    qed
    then show ?thesis using True t(1) by (simp add: for_loop_step)
  qed
qed

text \<open>The initialisation loop\<close>

lemma init_buffers_refines:
  fixes b :: "('f::{linorder,plus,zero}) buffers"
  assumes b: "sized n b" and n: "n = nat (vertexCount g)" and s: "rd sourceVertices i = Some s"
  shows "init_buffers FLT_MAX g sourceVertices i b = Some (init_spec FLT_MAX n s)"
proof -
  let ?r = "init_spec FLT_MAX n s"
  let ?I = "\<lambda>j (t :: 'f buffers). 0 \<le> j \<and> sized n t \<and>
      (\<forall>v<nat j. maskArray t ! v = maskArray ?r ! v \<and> costArray t ! v = costArray ?r ! v \<and>
                  updatingCostArray t ! v = updatingCostArray ?r ! v)"
  have "\<exists>t. for_loop 0 (int n) (init_vertex FLT_MAX sourceVertices i) b = Some t \<and> ?I (int n) t"
  proof (rule for_loop_total[where I = ?I])
    show "?I 0 b" using b by simp
    show "0 \<le> int n" by simp
    fix j and t :: "'f buffers"
    assume j: "0 \<le> j" "j < int n" and t: "?I j t"
    then have st: "sized n t" by simp
    let ?x = "if j = s then (1::int) else 0" and ?y = "if j = s then (0::'f) else FLT_MAX"
    let ?t' = "\<lparr>maskArray = (maskArray t)[nat j := ?x], costArray = (costArray t)[nat j := ?y],
                 updatingCostArray = (updatingCostArray t)[nat j := ?y]\<rparr>"
    have "init_vertex FLT_MAX sourceVertices i j t = Some ?t'"
      using j st by (simp add: init_vertex_def s wr_in sized_def)
    moreover have "?I (j + 1) ?t'"
    proof (intro conjI allI impI)
      show "0 \<le> j + 1" using j by simp
      show "sized n ?t'" using st by (simp add: sized_def)
      fix v assume "v < nat (j + 1)"
      then have v: "v < nat j \<or> v = nat j" using j by linarith
      have jn: "nat j < n" using j by simp
      have js: "int (nat j) = s \<longleftrightarrow> j = s" using j by simp
      show "maskArray ?t' ! v = maskArray ?r ! v"
        using v t st jn by (auto simp: nth_list_update sized_def init_spec_def js)
      show "costArray ?t' ! v = costArray ?r ! v"
        using v t st jn by (auto simp: nth_list_update sized_def init_spec_def js)
      show "updatingCostArray ?t' ! v = updatingCostArray ?r ! v"
        using v t st jn by (auto simp: nth_list_update sized_def init_spec_def js)
    qed
    ultimately show "\<exists>t'. init_vertex FLT_MAX sourceVertices i j t = Some t' \<and> ?I (j + 1) t'"
      by blast
  qed
  then obtain t where t: "for_loop 0 (int n) (init_vertex FLT_MAX sourceVertices i) b = Some t"
    and st: "sized n t"
    and e: "\<And>v. v < n \<Longrightarrow> maskArray t ! v = maskArray ?r ! v"
      "\<And>v. v < n \<Longrightarrow> costArray t ! v = costArray ?r ! v"
      "\<And>v. v < n \<Longrightarrow> updatingCostArray t ! v = updatingCostArray ?r ! v"
    by auto
  have "maskArray t = maskArray ?r"
    using st e(1) by (intro nth_equalityI) (simp_all add: sized_def init_spec_def)
  moreover have "costArray t = costArray ?r"
    using st e(2) by (intro nth_equalityI) (simp_all add: sized_def init_spec_def)
  moreover have "updatingCostArray t = updatingCostArray ?r"
    using st e(3) by (intro nth_equalityI) (simp_all add: sized_def init_spec_def)
  ultimately have "t = ?r" by (intro buffers.equality) simp_all
  moreover have "int n = vertexCount g \<or> (vertexCount g < 0 \<and> n = 0)" using n by auto
  ultimately show ?thesis
    using t by (auto simp: init_buffers_def for_loop_done)
qed

lemma init_buffers_empty:
  "vertexCount g \<le> 0 \<Longrightarrow> init_buffers FLT_MAX g sourceVertices i b = Some b"
  by (simp add: init_buffers_def for_loop_done)

lemma init_spec_synced: "synced n (init_spec FLT_MAX n s)"
  by (auto simp: synced_def sized_def mask01_def init_spec_def)

lemma init_spec_crowded: "crowded 0 n (init_spec FLT_MAX n s)"
  unfolding crowded_def
proof (intro allI impI)
  fix v assume v: "v < n" "maskArray (init_spec FLT_MAX n s) ! v = 1"
  let ?S = "{x. x < n \<and> costArray (init_spec FLT_MAX n s) ! x \<le> costArray (init_spec FLT_MAX n s) ! v}"
  have "v \<in> ?S" using v by simp
  moreover have "finite ?S" by simp
  ultimately show "0 < card ?S" by (simp only: card_gt_0_iff) blast
qed

lemma out_edges_bound:
  assumes g: "csr_invariants g" and tid: "tid < nat (vertexCount g)" and e: "e \<in> set (out_edges g tid)"
  shows "e < length (weightArray g)" "e < length (edgeArray g)"
proof -
  have "(if int tid + 1 < vertexCount g then vertexArray g ! (tid + 1) else edgeCount g) \<le> edgeCount g"
  proof (cases "int tid + 1 < vertexCount g")
    case True
    then have "tid + 1 < nat (vertexCount g)" by linarith
    from csr_vertex(2)[OF g this] True show ?thesis by simp
  qed simp
  with e have "e < nat (edgeCount g)" by (auto simp: out_edges_def)
  with g show "e < length (weightArray g)" "e < length (edgeArray g)"
    by (auto simp: csr_invariants_def)
qed

text \<open>The while loop ends within \<open>n - k\<close> iterations from a state that is crowded at \<open>k\<close>.\<close>

lemma while_mask_total:
  fixes g :: "('f::{linorder,plus,zero}) GraphData"
  assumes g: "csr_invariants g" and n: "n = nat (vertexCount g)"
    and grow: "\<And>(a::'f) w. w \<in> set (weightArray g) \<Longrightarrow> a \<le> a + w"
    and step: "\<And>t. synced n t \<Longrightarrow> Q t \<Longrightarrow> Q (iteration_spec g t)"
  shows "synced n b \<Longrightarrow> crowded k n b \<Longrightarrow> k \<le> n \<Longrightarrow> Q b \<Longrightarrow>
         \<exists>j b'. j + k \<le> n \<and> iterations g j b = Some b' \<and> while_mask g b = Some b' \<and>
                synced n b' \<and> Q b' \<and> (\<forall>v<n. maskArray b' ! v \<noteq> 1) \<and>
                (\<forall>i<j. \<exists>t. iterations g i b = Some t \<and>
                           maskArrayEmpty (maskArray t) (vertexCount g) = Some False)"
proof (induction "n - k" arbitrary: k b)
  case 0
  then have kn: "k = n" by simp
  have empty: "\<forall>v<n. maskArray b ! v \<noteq> 1"
    using crowded_bound[OF "0.prems"(2)] kn by auto
  have "maskArrayEmpty (maskArray b) (vertexCount g) = Some True"
    using "0.prems"(1) empty n by (subst maskArrayEmpty_eq) (auto simp: synced_def sized_def)
  then have "while_mask g b = Some b" by (subst while_mask.simps) simp
  with "0.prems" empty kn show ?case by (intro exI[of _ 0] exI[of _ b]) simp
next
  case (Suc d)
  have len: "vertexCount g \<le> int (length (maskArray b))"
    using Suc.prems(1) n by (auto simp: synced_def sized_def)
  show ?case
  proof (cases "\<forall>v<n. maskArray b ! v \<noteq> 1")
    case True
    have "maskArrayEmpty (maskArray b) (vertexCount g) = Some True"
      using True n by (subst maskArrayEmpty_eq[OF len]) auto
    then have "while_mask g b = Some b" by (subst while_mask.simps) simp
    with Suc.prems True show ?thesis by (intro exI[of _ 0] exI[of _ b]) simp
  next
    case False
    then obtain v where v: "v < n" "maskArray b ! v = 1" by auto
    have ne: "maskArrayEmpty (maskArray b) (vertexCount g) = Some False"
      using False n by (subst maskArrayEmpty_eq[OF len]) auto
    let ?b1 = "iteration_spec g b"
    have sb: "sized (nat (vertexCount g)) b" "mask01 b"
      using Suc.prems(1) n by (simp_all add: synced_def)
    have it: "iteration g b = Some ?b1" by (rule iteration_refines[OF g sb])
    have s1: "synced n ?b1" by (rule iteration_spec_props(1)[OF Suc.prems(1) n])
    have c1: "crowded (Suc k) n ?b1"
    proof (rule crowded_step[OF Suc.prems(1) n Suc.prems(2)])
      fix tid e assume "tid < n" "e \<in> set (out_edges g tid)"
      then have "weightArray g ! e \<in> set (weightArray g)"
        using out_edges_bound(1)[OF g] n by simp
      then show "costArray b ! tid \<le> costArray b ! tid + weightArray g ! e" by (rule grow)
    qed
    have k1: "Suc k \<le> n" using Suc.hyps(2) by simp
    have d: "d = n - Suc k" using Suc.hyps(2) by simp
    have q1: "Q ?b1" by (rule step[OF Suc.prems(1) Suc.prems(4)])
    from Suc.hyps(1)[OF d s1 c1 k1 q1] obtain j b' where
      j: "j + Suc k \<le> n" and ij: "iterations g j ?b1 = Some b'" and w: "while_mask g ?b1 = Some b'"
      and r: "synced n b'" "Q b'" "\<forall>v<n. maskArray b' ! v \<noteq> 1"
      and h: "\<forall>i<j. \<exists>t. iterations g i ?b1 = Some t \<and>
                           maskArrayEmpty (maskArray t) (vertexCount g) = Some False"
      by blast
    have "while_mask g b = Some b'"
      by (subst while_mask.simps) (simp add: ne it w)
    moreover have "iterations g (Suc j) b = Some b'" by (simp add: it ij)
    moreover have "\<forall>i<Suc j. \<exists>t. iterations g i b = Some t \<and>
                           maskArrayEmpty (maskArray t) (vertexCount g) = Some False"
    proof (intro allI impI)
      fix i assume "i < Suc j"
      show "\<exists>t. iterations g i b = Some t \<and> maskArrayEmpty (maskArray t) (vertexCount g) = Some False"
      proof (cases i)
        case 0
        with ne show ?thesis by simp
      next
        case (Suc i')
        with \<open>i < Suc j\<close> h show ?thesis by (simp add: it)
      qed
    qed
    moreover have "Suc j + k \<le> n" using j by simp
    ultimately show ?thesis using r by blast
  qed
qed

section \<open>The rows of the output\<close>



section \<open>What a returning sweep leaves untouched\<close>

text \<open>These facts hold for every graph, also one that breaks the CSR invariants.\<close>

lemma relax_edge_keeps:
  assumes "relax_edge g tid e t = Some t'"
  shows "costArray t' = costArray t" "maskArray t' = maskArray t"
    "length (updatingCostArray t') = length (updatingCostArray t)"
  using assms
  by (auto simp: relax_edge_def rd_Some wr_Some split: if_splits bind_splits)

lemma kernel1_vertex_keeps:
  assumes "kernel1_vertex g tid t = Some t'"
  shows "costArray t' = costArray t \<and> length (maskArray t') = length (maskArray t) \<and>
         length (updatingCostArray t') = length (updatingCostArray t) \<and>
         (mask01 t \<longrightarrow> mask01 t')"
proof (cases "rd (maskArray t) tid = Some 0")
  case True
  with assms show ?thesis by (simp add: kernel1_vertex_def)
next
  case False
  with assms obtain lo hi where
    tid: "0 \<le> tid" "tid < int (length (maskArray t))"
    and l: "for_loop lo hi (relax_edge g tid) (t\<lparr>maskArray := (maskArray t)[nat tid := 0]\<rparr>) = Some t'"
    by (auto simp: kernel1_vertex_def rd_Some wr_Some split: if_splits bind_splits)
  let ?t1 = "t\<lparr>maskArray := (maskArray t)[nat tid := 0]\<rparr>"
  let ?P = "\<lambda>u. costArray u = costArray ?t1 \<and> maskArray u = maskArray ?t1 \<and>
                 length (updatingCostArray u) = length (updatingCostArray ?t1)"
  have "?P t'"
    by (rule for_loop_preserves[OF l, where P = ?P]) (auto dest: relax_edge_keeps)
  moreover have "mask01 t \<Longrightarrow> mask01 ?t1"
    by (auto simp: mask01_def dest!: set_update_subset_insert[THEN subsetD])
  ultimately show ?thesis by (auto simp: mask01_def)
qed

lemma kernel1_keeps:
  assumes "kernel1 g b = Some b'"
  shows "costArray b' = costArray b" "length (maskArray b') = length (maskArray b)"
    "length (updatingCostArray b') = length (updatingCostArray b)" "mask01 b \<Longrightarrow> mask01 b'"
proof -
  let ?P = "\<lambda>t. costArray t = costArray b \<and> length (maskArray t) = length (maskArray b) \<and>
                 length (updatingCostArray t) = length (updatingCostArray b) \<and>
                 (mask01 b \<longrightarrow> mask01 t)"
  have "?P b'"
    by (rule for_loop_preserves[OF assms[unfolded kernel1_def], where P = ?P])
       (auto dest!: kernel1_vertex_keeps)
  then show "costArray b' = costArray b" "length (maskArray b') = length (maskArray b)"
    "length (updatingCostArray b') = length (updatingCostArray b)" "mask01 b \<Longrightarrow> mask01 b'"
    by simp_all
qed

lemma kernel2_vertex_keeps:
  assumes "kernel2_vertex tid t = Some t'"
  shows "length (costArray t') = length (costArray t) \<and>
         length (maskArray t') = length (maskArray t) \<and>
         length (updatingCostArray t') = length (updatingCostArray t) \<and>
         (\<forall>v<length (costArray t). costArray t' ! v \<le> costArray t ! v) \<and>
         (mask01 t \<longrightarrow> mask01 t')"
  using assms
  by (auto simp: kernel2_vertex_def rd_Some wr_Some mask01_def nth_list_update
           split: if_splits bind_splits dest!: set_update_subset_insert[THEN subsetD])

lemma kernel2_keeps:
  assumes "kernel2 g b = Some b'"
  shows "length (costArray b') = length (costArray b)" "length (maskArray b') = length (maskArray b)"
    "length (updatingCostArray b') = length (updatingCostArray b)"
    "\<And>v. v < length (costArray b) \<Longrightarrow> costArray b' ! v \<le> costArray b ! v"
    "mask01 b \<Longrightarrow> mask01 b'"
proof -
  let ?P = "\<lambda>t. length (costArray t) = length (costArray b) \<and>
                 length (maskArray t) = length (maskArray b) \<and>
                 length (updatingCostArray t) = length (updatingCostArray b) \<and>
                 (\<forall>v<length (costArray b). costArray t ! v \<le> costArray b ! v) \<and>
                 (mask01 b \<longrightarrow> mask01 t)"
  have "?P b'"
  proof (rule for_loop_preserves[OF assms[unfolded kernel2_def], where P = ?P])
    show "?P b" by simp
    fix i t t' assume "?P t" and k: "kernel2_vertex i t = Some t'"
    with kernel2_vertex_keeps[OF k] show "?P t'"
      by (auto intro: order_trans)
  qed
  then show "length (costArray b') = length (costArray b)" "length (maskArray b') = length (maskArray b)"
    "length (updatingCostArray b') = length (updatingCostArray b)"
    "\<And>v. v < length (costArray b) \<Longrightarrow> costArray b' ! v \<le> costArray b ! v"
    "mask01 b \<Longrightarrow> mask01 b'"
    by simp_all
qed

lemma triangle_csr: "csr_invariants triangle"
  by (simp add: csr_invariants_def triangle_def)

lemma triangle_nonneg: "nonneg_weights triangle"
  by (simp add: nonneg_weights_def triangle_def)

lemma tri_kernel1: "kernel1 triangle tri_init = Some tri_mid"
  by code_simp

lemma tri_kernel2: "kernel2 triangle tri_mid = Some tri_next"
  by code_simp

lemma tri_init_buffers: "init_buffers flt_max triangle [0] 0 fresh3 = Some tri_init"
  by code_simp

section \<open>The claims about the sweeps and the mask\<close>

text \<open>
  Claim C2. One first sweep of the reference engine does what the spec's phase 1 says: on
  a graph that satisfies the CSR invariants, with working arrays of \<open>vertexCount\<close>
  entries and a mask of 0s and 1s, \<open>kernel1\<close> returns, and its result is the
  vertex-by-vertex pass of \<open>phase1_spec\<close>: a vertex whose mask is 1 has its mask
  cleared and each of its edges \<open>e\<close> (from its offset to the next offset, or to
  \<open>edgeCount\<close> for the last vertex) sets \<open>updatingCost[edgeArray[e]]\<close> to the
  minimum of itself and \<open>cost[tid] + weightArray[e]\<close>; a vertex whose mask is 0 changes
  nothing.
\<close>

theorem phase1_sweep_as_specified:
  assumes "csr_invariants g" and "sized (nat (vertexCount g)) b" and "mask01 b"
  shows "kernel1 g b = Some (phase1_spec g b)"
  using assms by (rule kernel1_refines)

theorem phase1_sweep_as_specified_witness:
  "csr_invariants triangle \<and> sized (nat (vertexCount triangle)) tri_init \<and> mask01 tri_init \<and>
   kernel1 triangle tri_init = Some tri_mid"
proof -
  have s: "sized (nat (vertexCount triangle)) tri_init"
    by (simp add: sized_def triangle_def tri_init_def)
  have m: "mask01 tri_init" by (simp add: mask01_def tri_init_def)
  have e: "phase1_spec triangle tri_init = tri_mid" by code_simp
  show ?thesis
    using phase1_sweep_as_specified[OF triangle_csr s m] triangle_csr s m e by simp
qed

text \<open>
  Claim C3. One second sweep does what the spec's phase 2 says: with working arrays of
  \<open>vertexCount\<close> entries, \<open>kernel2\<close> returns the arrays of \<open>phase2_spec\<close>
  (where \<open>cost[tid] > updatingCost[tid]\<close> the cost becomes the updating cost and the
  mask 1, elsewhere cost and mask stay), and afterwards \<open>updatingCost[v] = cost[v]\<close>
  for every vertex.
\<close>

theorem phase2_sweep_as_specified:
  assumes "sized (nat (vertexCount g)) b"
  shows "\<exists>b'. kernel2 g b = Some b' \<and> b' = phase2_spec (nat (vertexCount g)) b \<and>
              (\<forall>v<nat (vertexCount g). updatingCostArray b' ! v = costArray b' ! v)"
  using kernel2_refines[OF assms] by (simp add: phase2_spec_def)

theorem phase2_sweep_as_specified_witness:
  "sized (nat (vertexCount triangle)) tri_mid \<and>
   kernel2 triangle tri_mid = Some tri_next \<and>
   updatingCostArray tri_next ! 0 = costArray tri_next ! 0 \<and>
   updatingCostArray tri_next ! 1 = costArray tri_next ! 1 \<and>
   updatingCostArray tri_next ! 2 = costArray tri_next ! 2"
proof -
  have s: "sized (nat (vertexCount triangle)) tri_mid"
    by (simp add: sized_def triangle_def tri_mid_def)
  have e: "phase2_spec (nat (vertexCount triangle)) tri_mid = tri_next" by code_simp
  have n: "nat (vertexCount triangle) = 3" by (simp add: triangle_def)
  from phase2_sweep_as_specified[OF s] e n
  have k: "kernel2 triangle tri_mid = Some tri_next"
    and u: "\<forall>v<3. updatingCostArray tri_next ! v = costArray tri_next ! v"
    by simp_all
  from u have "updatingCostArray tri_next ! 0 = costArray tri_next ! 0"
    "updatingCostArray tri_next ! 1 = costArray tri_next ! 1"
    "updatingCostArray tri_next ! 2 = costArray tri_next ! 2"
    by simp_all
  with s k show ?thesis by simp
qed

text \<open>
  Claim C4. No cost increases in an iteration of the while loop: when the first sweep
  followed by the second returns, every entry of \<open>costArray\<close> is at most what it was
  before. This holds for every graph and every state of the arrays.
\<close>

theorem cost_never_increases:
  assumes "iteration g b = Some b'"
  shows "length (costArray b') = length (costArray b) \<and>
         (\<forall>v<length (costArray b). costArray b' ! v \<le> costArray b ! v)"
proof -
  from assms obtain b1 where k1: "kernel1 g b = Some b1" and k2: "kernel2 g b1 = Some b'"
    by (auto simp: iteration_def split: bind_splits)
  from kernel1_keeps(1)[OF k1] kernel2_keeps(1,4)[OF k2] show ?thesis by simp
qed

theorem cost_never_increases_witness:
  "iteration triangle tri_init = Some tri_next \<and>
   costArray tri_next ! 0 \<le> costArray tri_init ! 0 \<and>
   costArray tri_next ! 1 \<le> costArray tri_init ! 1 \<and>
   costArray tri_next ! 2 \<le> costArray tri_init ! 2"
proof -
  have i: "iteration triangle tri_init = Some tri_next"
    by (simp add: iteration_def tri_kernel1 tri_kernel2)
  have l: "length (costArray tri_init) = 3" by (simp add: tri_init_def)
  from cost_never_increases[OF i] l
  have "\<forall>v<3. costArray tri_next ! v \<le> costArray tri_init ! v" by simp
  then have "costArray tri_next ! 0 \<le> costArray tri_init ! 0"
    "costArray tri_next ! 1 \<le> costArray tri_init ! 1"
    "costArray tri_next ! 2 \<le> costArray tri_init ! 2"
    by simp_all
  with i show ?thesis by simp
qed

lemma init_buffers_result:
  fixes b :: "('f::{linorder,plus,zero}) buffers"
  assumes b: "sized (nat (vertexCount g)) b" and i: "init_buffers FLT_MAX g sourceVertices i b = Some b0"
  shows "sized (nat (vertexCount g)) b0 \<and> mask01 b0"
proof (cases "0 < vertexCount g")
  case False
  then have "b0 = b" using i by (simp add: init_buffers_empty)
  moreover have "maskArray b = []" using b False by (simp add: sized_def)
  ultimately show ?thesis using b by (simp add: mask01_def)
next
  case True
  with i obtain s where "rd sourceVertices i = Some s"
    by (auto simp: init_buffers_def for_loop_step init_vertex_def split: option.splits bind_splits)
  from init_buffers_refines[OF b refl this] i
  have "b0 = init_spec FLT_MAX (nat (vertexCount g)) s" by simp
  then show ?thesis using init_spec_synced[of "nat (vertexCount g)" FLT_MAX s] by (simp add: synced_def)
qed

lemma loop_state_mask:
  assumes "loop_state FLT_MAX g sourceVertices i p b"
  shows "sized (nat (vertexCount g)) b \<and> mask01 b"
  using assms
proof (induction rule: loop_state.induct)
  case (initialised b b0)
  then show ?case by (rule init_buffers_result)
next
  case (swept1 b b1)
  with kernel1_keeps[OF swept1.hyps(3)] show ?case by (simp add: sized_def)
next
  case (swept2 b1 b2)
  with kernel2_keeps(1,2,3,5)[OF swept2.hyps(2)] show ?case by (simp add: sized_def)
qed

text \<open>
  Claim C10. In every state that the loop of a query reaches, each entry of the mask is 0
  or 1; so the convergence test \<open>maskArrayEmpty\<close>, which looks for an entry equal to 1,
  answers true exactly when every entry is 0, and the test \<open>mask[tid] != 0\<close> of the
  first sweep holds exactly when \<open>mask[tid] == 1\<close>.
\<close>

theorem mask_entries_are_0_or_1:
  assumes "loop_state FLT_MAX g sourceVertices i p b"
  shows "(\<forall>v<length (maskArray b). maskArray b ! v = 0 \<or> maskArray b ! v = 1) \<and>
         (maskArrayEmpty (maskArray b) (vertexCount g) = Some True \<longleftrightarrow>
            (\<forall>v<length (maskArray b). maskArray b ! v = 0)) \<and>
         (\<forall>tid<length (maskArray b). maskArray b ! tid \<noteq> 0 \<longleftrightarrow> maskArray b ! tid = 1)"
proof -
  from loop_state_mask[OF assms] have s: "length (maskArray b) = nat (vertexCount g)"
    and m: "mask01 b" by (simp_all add: sized_def)
  have 01: "maskArray b ! v = 0 \<or> maskArray b ! v = 1" if "v < length (maskArray b)" for v
    using m that by (simp add: mask01_def)
  have "vertexCount g \<le> int (length (maskArray b))" using s by simp
  then have e: "maskArrayEmpty (maskArray b) (vertexCount g) =
                  Some (\<forall>v<length (maskArray b). maskArray b ! v \<noteq> 1)"
    using s by (simp add: maskArrayEmpty_eq)
  have "(\<forall>v<length (maskArray b). maskArray b ! v \<noteq> 1) \<longleftrightarrow>
        (\<forall>v<length (maskArray b). maskArray b ! v = 0)"
    using 01 by auto
  with e 01 show ?thesis by auto
qed

theorem mask_entries_are_0_or_1_witness:
  "loop_state flt_max triangle [0] 0 Head tri_next \<and>
   (maskArray tri_next ! 0 = 0 \<or> maskArray tri_next ! 0 = 1) \<and>
   (maskArray tri_next ! 1 = 0 \<or> maskArray tri_next ! 1 = 1) \<and>
   (maskArray tri_next ! 2 = 0 \<or> maskArray tri_next ! 2 = 1) \<and>
   maskArrayEmpty (maskArray tri_next) (vertexCount triangle) \<noteq> Some True \<and>
   maskArray tri_next ! 1 \<noteq> 0 \<and> maskArray tri_next ! 1 = 1"
proof -
  have s: "sized (nat (vertexCount triangle)) fresh3"
    by (simp add: sized_def triangle_def fresh3_def)
  have e: "maskArrayEmpty (maskArray tri_init) (vertexCount triangle) = Some False"
    by code_simp
  have "loop_state flt_max triangle [0] 0 Head tri_init"
    by (rule loop_state.initialised[OF s tri_init_buffers])
  then have "loop_state flt_max triangle [0] 0 Mid tri_mid"
    by (rule loop_state.swept1[OF _ e tri_kernel1])
  then have l: "loop_state flt_max triangle [0] 0 Head tri_next"
    by (rule loop_state.swept2[OF _ tri_kernel2])
  have n: "length (maskArray tri_next) = 3" by (simp add: tri_next_def)
  note t = mask_entries_are_0_or_1[OF l, unfolded n]
  from t have a: "\<forall>v<3. maskArray tri_next ! v = 0 \<or> maskArray tri_next ! v = 1"
    and b: "maskArrayEmpty (maskArray tri_next) (vertexCount triangle) = Some True \<longleftrightarrow>
            (\<forall>v<3. maskArray tri_next ! v = 0)"
    and c: "\<forall>tid<3. maskArray tri_next ! tid \<noteq> 0 \<longleftrightarrow> maskArray tri_next ! tid = 1"
    by blast+
  have m1: "maskArray tri_next ! 1 = 1" by (simp add: tri_next_def)
  from a have "maskArray tri_next ! 0 = 0 \<or> maskArray tri_next ! 0 = 1"
    "maskArray tri_next ! 1 = 0 \<or> maskArray tri_next ! 1 = 1"
    "maskArray tri_next ! 2 = 0 \<or> maskArray tri_next ! 2 = 1"
    by simp_all
  moreover from b m1 have "maskArrayEmpty (maskArray tri_next) (vertexCount triangle) \<noteq> Some True"
    by auto
  moreover from c m1 have "maskArray tri_next ! 1 \<noteq> 0" by simp
  ultimately show ?thesis using l m1 by simp
qed

section \<open>The claims about a whole query\<close>

lemma weights_grow:
  fixes g :: "('f::{linorder,plus,zero}) GraphData"
  assumes "nonneg_weights g" and "\<And>(a::'f) w. 0 \<le> w \<Longrightarrow> a \<le> a + w"
    and "w \<in> set (weightArray g)"
  shows "a \<le> a + w"
  using assms by (simp add: nonneg_weights_def)

text \<open>
  Claim C5. On a graph that satisfies the CSR invariants and has non-negative weights,
  the while loop of a query ends: from the initialised arrays it makes some number
  \<open>k \<le> vertexCount\<close> of iterations, the mask being non-empty before each of them, and
  then every entry of the mask is 0 and the loop returns that state. Of the addition of
  costs the proof uses one law: adding a non-negative weight does not make a cost smaller.
\<close>

theorem while_loop_terminates:
  fixes g :: "('f::{linorder,plus,zero}) GraphData"
  assumes "csr_invariants g" and "nonneg_weights g"
    and "\<And>(a::'f) w. 0 \<le> w \<Longrightarrow> a \<le> a + w"
    and "sized (nat (vertexCount g)) b" and "rd sourceVertices i = Some s"
  shows "\<exists>b0 k b'. init_buffers FLT_MAX g sourceVertices i b = Some b0 \<and>
           k \<le> nat (vertexCount g) \<and> iterations g k b0 = Some b' \<and>
           (\<forall>j<k. \<exists>t. iterations g j b0 = Some t \<and>
                      maskArrayEmpty (maskArray t) (vertexCount g) = Some False) \<and>
           maskArrayEmpty (maskArray b') (vertexCount g) = Some True \<and>
           (\<forall>v<nat (vertexCount g). maskArray b' ! v = 0) \<and>
           while_mask g b0 = Some b'"
proof -
  let ?n = "nat (vertexCount g)"
  let ?b0 = "init_spec FLT_MAX ?n s"
  have i: "init_buffers FLT_MAX g sourceVertices i b = Some ?b0"
    by (rule init_buffers_refines[OF assms(4) refl assms(5)])
  from while_mask_total[where Q = "\<lambda>_. True" and k = 0 and b = ?b0,
      OF assms(1) refl weights_grow[OF assms(2,3)] _ init_spec_synced init_spec_crowded]
  obtain j b' where j: "j \<le> ?n" and it: "iterations g j ?b0 = Some b'"
    and w: "while_mask g ?b0 = Some b'" and sb: "synced ?n b'"
    and e: "\<forall>v<?n. maskArray b' ! v \<noteq> 1"
    and h: "\<forall>i<j. \<exists>t. iterations g i ?b0 = Some t \<and>
                      maskArrayEmpty (maskArray t) (vertexCount g) = Some False"
    by auto
  from sb have len: "length (maskArray b') = ?n" and m: "mask01 b'"
    by (simp_all add: synced_def sized_def)
  have z: "\<forall>v<?n. maskArray b' ! v = 0"
  proof (intro allI impI)
    fix v assume v: "v < ?n"
    then have "maskArray b' ! v \<in> set (maskArray b')" using len by simp
    with m have "maskArray b' ! v = 0 \<or> maskArray b' ! v = 1" by (simp add: mask01_def)
    with e v show "maskArray b' ! v = 0" by auto
  qed
  have "vertexCount g \<le> int (length (maskArray b'))" using len by simp
  then have "maskArrayEmpty (maskArray b') (vertexCount g) = Some True"
    using e by (simp add: maskArrayEmpty_eq)
  with i j it h z w show ?thesis by blast
qed

theorem while_loop_terminates_witness:
  "(\<exists>b0 k b'. init_buffers flt_max triangle [0] 0 fresh3 = Some b0 \<and>
           k \<le> nat (vertexCount triangle) \<and> iterations triangle k b0 = Some b' \<and>
           (\<forall>j<k. \<exists>t. iterations triangle j b0 = Some t \<and>
                      maskArrayEmpty (maskArray t) (vertexCount triangle) = Some False) \<and>
           maskArrayEmpty (maskArray b') (vertexCount triangle) = Some True \<and>
           (\<forall>v<nat (vertexCount triangle). maskArray b' ! v = 0) \<and>
           while_mask triangle b0 = Some b') \<and>
   init_buffers flt_max triangle [0] 0 fresh3 = Some tri_init \<and>
   iterations triangle 3 tri_init = Some tri_final \<and>
   while_mask triangle tri_init = Some tri_final"
proof -
  have s: "sized (nat (vertexCount triangle)) fresh3"
    by (simp add: sized_def triangle_def fresh3_def)
  have r: "rd [0] 0 = Some (0::int)" by (simp add: rd_def)
  have law: "\<And>(a::int) w. 0 \<le> w \<Longrightarrow> a \<le> a + w" by simp
  have 1: "iterations triangle 3 tri_init = Some tri_final" by code_simp
  have 2: "while_mask triangle tri_init = Some tri_final" by code_simp
  show ?thesis
    using while_loop_terminates[OF triangle_csr triangle_nonneg law s r, of flt_max]
      tri_init_buffers 1 2 by simp
qed
























section \<open>The partition of the batch\<close>

text \<open>The loop that fills the plans, in closed form.\<close>

lemma fold_plan_device:
  "fold (plan_device ctx g share) [0..<k] (ps, off) =
     (ps @ map (\<lambda>i. \<lparr>plan_context = ctx, plan_deviceId = i, plan_graph = g,
                        plan_sourceVertices = off + int i * share,
                        plan_outResultCosts = int_mul (off + int i * share) (vertexCount g),
                        plan_numResults = share\<rparr>) [0..<k],
      off + int k * share)"
  by (induction k) (simp_all add: plan_device_def algebra_simps)

lemma int32_uint32_div:
  assumes "0 \<le> n" "n < 2 ^ 31" "0 < d"
  shows "int32 (uint32 n div int d) = n div int d"
proof -
  have u: "uint32 n = n" using assms by (simp add: uint32_def)
  have "0 \<le> n div int d" using assms by (simp add: pos_imp_zdiv_nonneg_iff)
  moreover have "n div int d \<le> n" using zdiv_mono2[of n 1 "int d"] assms by simp
  ultimately have "0 \<le> n div int d" "n div int d < 2 ^ 31" using assms by simp_all
  then show ?thesis by (simp add: u int32_def)
qed

text \<open>
  The partition of \<open>runDijkstraMultiGPU\<close>: with \<open>deviceCount > 0\<close> devices and
  \<open>0 \<le> numResults < 2\<^sup>3\<^sup>1\<close>, device \<open>i\<close> gets the slice that starts at
  \<open>i * (numResults div deviceCount)\<close>, of \<open>numResults div deviceCount\<close> queries, the
  last device the remainder on top; the slices follow one another from 0 to
  \<open>numResults\<close>, and each plan's output offset is its query offset times \<open>vertexCount\<close>.
\<close>

lemma plans_MultiGPU_partition:
  fixes g :: "'f GraphData"
  assumes n: "0 \<le> numResults" "numResults < 2 ^ 31" and d: "0 < deviceCount"
  defines "q \<equiv> numResults div int deviceCount"
  defines "ps \<equiv> plans_MultiGPU deviceCount g numResults"
  shows "length ps = deviceCount"
    and "\<And>i. i < deviceCount \<Longrightarrow>
           plan_context (ps ! i) = gpuContext \<and> plan_deviceId (ps ! i) = i \<and>
           plan_sourceVertices (ps ! i) = int i * q \<and>
           plan_outResultCosts (ps ! i) = int_mul (plan_sourceVertices (ps ! i)) (vertexCount g) \<and>
           plan_numResults (ps ! i) =
             (if i = deviceCount - 1 then q + numResults mod int deviceCount else q)"
    and "\<And>i. Suc i < deviceCount \<Longrightarrow>
           plan_sourceVertices (ps ! Suc i) = plan_sourceVertices (ps ! i) + plan_numResults (ps ! i)"
    and "plan_sourceVertices (ps ! (deviceCount - 1)) + plan_numResults (ps ! (deviceCount - 1)) =
           numResults"
proof -
  let ?mk = "\<lambda>i. \<lparr>plan_context = gpuContext, plan_deviceId = i, plan_graph = g,
                   plan_sourceVertices = 0 + int i * q,
                   plan_outResultCosts = int_mul (0 + int i * q) (vertexCount g),
                   plan_numResults = q\<rparr>"
  let ?base = "map ?mk [0..<deviceCount]"
  let ?last = "deviceCount - 1"
  have rq: "int32 (uint32 numResults div int deviceCount) = q"
    unfolding q_def by (rule int32_uint32_div[OF n d])
  have off: "int deviceCount * q = numResults - numResults mod int deviceCount"
    unfolding q_def by (simp add: algebra_simps minus_mod_eq_mult_div)
  have m: "0 \<le> numResults mod int deviceCount" using d by simp
  have ps: "ps = (if int deviceCount * q < numResults
                  then ?base[?last := (?base ! ?last)\<lparr>plan_numResults :=
                         plan_numResults (?base ! ?last) + (numResults - int deviceCount * q)\<rparr>]
                  else ?base)"
    unfolding ps_def plans_MultiGPU_def
    by (simp add: rq Let_def fold_plan_device[where ps = "[]" and off = 0, simplified] add_remaining_def)
  show len: "length ps = deviceCount" by (simp add: ps)
  have ld: "?last < deviceCount" using d by simp
  show fields: "plan_context (ps ! i) = gpuContext \<and> plan_deviceId (ps ! i) = i \<and>
           plan_sourceVertices (ps ! i) = int i * q \<and>
           plan_outResultCosts (ps ! i) = int_mul (plan_sourceVertices (ps ! i)) (vertexCount g) \<and>
           plan_numResults (ps ! i) =
             (if i = deviceCount - 1 then q + numResults mod int deviceCount else q)"
    if i: "i < deviceCount" for i
  proof (cases "int deviceCount * q < numResults")
    case True
    then show ?thesis using i off by (auto simp: ps nth_list_update)
  next
    case False
    with off m have "numResults mod int deviceCount = 0" by linarith
    with False show ?thesis using i by (simp add: ps)
  qed
  show "plan_sourceVertices (ps ! Suc i) = plan_sourceVertices (ps ! i) + plan_numResults (ps ! i)"
    if "Suc i < deviceCount" for i
  proof -
    have "i < deviceCount" "i \<noteq> deviceCount - 1" using that by simp_all
    with fields[of i] fields[OF that] show ?thesis by (simp add: algebra_simps)
  qed
  have "int ?last * q + q = int deviceCount * q"
    using d by (simp add: algebra_simps of_nat_diff)
  with fields[OF ld] off
  show "plan_sourceVertices (ps ! ?last) + plan_numResults (ps ! ?last) = numResults"
    by simp
qed

text \<open>
  The partition of \<open>runDijkstraMultiGPUandCPU\<close> where the conversion to float is exact
  (\<open>0 \<le> numResults < 2\<^sup>2\<^sup>4\<close>): every GPU gets
  \<open>numResults div (gpuDeviceCount + cpuDeviceCount)\<close> queries, every CPU none, and the
  last CPU all that is left; the slices follow one another from 0 to \<open>numResults\<close>.
\<close>

lemma nth_two_maps:
  "i < k \<Longrightarrow> (map f [0..<k] @ ys) ! i = f i"
  "i < k' \<Longrightarrow> (map f [0..<k] @ map h [0..<k']) ! (k + i) = h i"
  by (simp_all add: nth_append)

lemma plans_MultiGPUandCPU_exact:
  fixes g :: "'f GraphData"
  assumes n: "0 \<le> numResults" "numResults < 2 ^ 24"
    and d: "0 < gpuDeviceCount" "0 < cpuDeviceCount"
      "int gpuDeviceCount + int cpuDeviceCount < 2 ^ 32"
  defines "q \<equiv> numResults div (int gpuDeviceCount + int cpuDeviceCount)"
  shows "\<exists>ps. plans_MultiGPUandCPU gpuDeviceCount cpuDeviceCount g numResults = Some ps \<and>
           length ps = gpuDeviceCount + cpuDeviceCount \<and>
           (\<forall>i<gpuDeviceCount. plan_context (ps ! i) = gpuContext \<and> plan_deviceId (ps ! i) = i \<and>
              plan_sourceVertices (ps ! i) = int i * q \<and> plan_numResults (ps ! i) = q) \<and>
           (\<forall>i<cpuDeviceCount.
              plan_context (ps ! (gpuDeviceCount + i)) = cpuContext \<and>
              plan_deviceId (ps ! (gpuDeviceCount + i)) = i \<and>
              plan_sourceVertices (ps ! (gpuDeviceCount + i)) = int gpuDeviceCount * q \<and>
              plan_numResults (ps ! (gpuDeviceCount + i)) =
                (if i = cpuDeviceCount - 1 then numResults - int gpuDeviceCount * q else 0))"
proof -
  let ?G = gpuDeviceCount and ?C = cpuDeviceCount
  let ?t = "?G + ?C"
  let ?last = "?t - 1"
  define gp where "gp i = \<lparr>plan_context = gpuContext, plan_deviceId = i, plan_graph = g,
                   plan_sourceVertices = 0 + int i * q,
                   plan_outResultCosts = int_mul (0 + int i * q) (vertexCount g),
                   plan_numResults = q\<rparr>" for i
  define cp where "cp i = \<lparr>plan_context = cpuContext, plan_deviceId = i, plan_graph = g,
                   plan_sourceVertices = (0 + int ?G * q) + int i * 0,
                   plan_outResultCosts = int_mul ((0 + int ?G * q) + int i * 0) (vertexCount g),
                   plan_numResults = 0\<rparr>" for i
  define all where "all = map gp [0..<?G] @ map cp [0..<?C]"
  have f: "float_of_int numResults = numResults" using n by (simp add: float_of_int_def)
  have i: "int_of_float numResults = Some numResults" using n by (simp add: int_of_float_def)
  have t: "nat (uint32 (int ?G + int ?C)) = ?t" using d by (simp add: uint32_def)
  have n31: "numResults < 2 ^ 31" using n(2) by simp
  have tpos: "0 < ?t" using d by simp
  have rq: "int32 (uint32 numResults div int ?t) = q"
    using int32_uint32_div[OF n(1) n31 tpos] by (simp add: q_def)
  have q0: "0 \<le> q" using n d by (simp add: q_def pos_imp_zdiv_nonneg_iff)
  have "int ?t * q = numResults - numResults mod int ?t"
    by (simp add: q_def minus_mod_eq_mult_div)
  moreover have "0 < int ?t" using tpos by linarith
  then have "0 \<le> numResults mod int ?t" by (rule pos_mod_sign)
  ultimately have "int ?t * q \<le> numResults" by linarith
  moreover have "int ?G * q \<le> int ?t * q" using q0 by (intro mult_right_mono) simp_all
  ultimately have gq: "int ?G * q \<le> numResults" by simp
  have st: "fold (plan_device cpuContext g 0) [0..<?C]
              (fold (plan_device gpuContext g q) [0..<?G] ([], 0)) = (all, int ?G * q)"
    unfolding all_def gp_def cp_def by (simp only: fold_plan_device) simp
  have "plans_MultiGPUandCPU ?G ?C g numResults =
          (if ?t = 0 \<or> ?t < ?t then None
           else Some (add_remaining ?last numResults
                  (fold (plan_device cpuContext g 0) [0..<?C]
                     (fold (plan_device gpuContext g (int32 (uint32 numResults div int ?t)))
                        [0..<?G] ([], 0)))))"
    by (simp only: plans_MultiGPUandCPU_def Let_def f i t option.case cancel_comm_monoid_add_class.diff_cancel)
  then have ps: "plans_MultiGPUandCPU ?G ?C g numResults =
              Some (add_remaining ?last numResults (all, int ?G * q))"
    using tpos by (simp only: rq st) simp
  define ps where "ps = add_remaining ?last numResults (all, int ?G * q)"
  have la: "length all = ?t" by (simp add: all_def)
  have ag: "all ! i = gp i" if "i < ?G" for i
    unfolding all_def using that by (rule nth_two_maps(1))
  have ac: "all ! (?G + i) = cp i" if "i < ?C" for i
    unfolding all_def using that by (rule nth_two_maps(2))
  have ll: "?last = ?G + (?C - 1)" "?C - 1 < ?C" "?last < length all"
    using d la by simp_all
  have lastc: "all ! ?last = cp (?C - 1)"
    unfolding ll(1) using ll(2) by (rule ac)
  have eq: "ps = (if int ?G * q < numResults
                   then all[?last := (cp (?C - 1))\<lparr>plan_numResults := numResults - int ?G * q\<rparr>]
                   else all)"
    unfolding ps_def add_remaining_def prod.case lastc by (simp add: cp_def)
  have len: "length ps = ?t" by (simp add: eq la)
  have gpu: "ps ! i = gp i" if "i < ?G" for i
  proof -
    have "i \<noteq> ?last" using that d by simp
    then have "ps ! i = all ! i" by (simp add: eq del: One_nat_def)
    with ag[OF that] show ?thesis by simp
  qed
  have cpu: "ps ! (?G + i) =
       (cp i)\<lparr>plan_numResults := (if i = ?C - 1 then numResults - int ?G * q else 0)\<rparr>"
    if i: "i < ?C" for i
  proof (cases "i = ?C - 1")
    case False
    then have "?G + i \<noteq> ?last" using i d by simp
    then have "ps ! (?G + i) = all ! (?G + i)" by (simp add: eq del: One_nat_def)
    with ac[OF i] False show ?thesis by (simp add: cp_def)
  next
    case True
    then have l: "?G + i = ?last" using d by simp
    show ?thesis
    proof (cases "int ?G * q < numResults")
      case lt: True
      then have "ps ! ?last = (cp (?C - 1))\<lparr>plan_numResults := numResults - int ?G * q\<rparr>"
        using ll(3) by (simp add: eq del: One_nat_def)
      with True l show ?thesis by simp
    next
      case ge: False
      with gq have z: "numResults - int ?G * q = 0" by simp
      from ge have "ps ! (?G + i) = all ! (?G + i)" by (simp add: eq)
      with ac[OF i] True z show ?thesis by (simp add: cp_def)
    qed
  qed
  show ?thesis
  proof (intro exI conjI allI impI)
    show "plans_MultiGPUandCPU ?G ?C g numResults = Some ps" using ps by (simp add: ps_def)
    show "length ps = ?G + ?C" by (rule len)
  qed (simp_all add: gpu cpu gp_def cp_def)
qed

text \<open>
  Claim C8, at an input where the code departs from it. With one GPU, two CPUs and
  16777219 queries, \<open>(float) numResults\<close> is 16777220, one more than
  \<open>numResults\<close>, so \<open>cpuResults\<close> is -1. The GPU gets the queries from 0 up to
  5592406; each CPU plan takes a share of -1, which moves the offset back by one, and
  the last CPU, after the remainder is added, gets the queries from 5592405 on. Query
  5592405 lies in the slice of the GPU and in the slice of the last CPU: the slices do
  not cover the queries exactly once.
\<close>

theorem gpu_and_cpu_slices_overlap:
  "float_of_int 16777219 = 16777220 \<and>
   map_option
     (map (\<lambda>p. (plan_context p, plan_deviceId p, plan_sourceVertices p, plan_outResultCosts p,
                  plan_numResults p)))
     (plans_MultiGPUandCPU 1 2 triangle 16777219) =
     Some [(gpuContext, 0, 0, Some 0, 5592406),
           (cpuContext, 0, 5592406, Some 16777218, - 1),
           (cpuContext, 1, 5592405, Some 16777215, 11184814)] \<and>
   (\<exists>p0 p1 p2. plans_MultiGPUandCPU 1 2 triangle 16777219 = Some [p0, p1, p2] \<and>
      5592405 \<in> plan_queries p0 \<and> 5592405 \<in> plan_queries p2)"
proof -
  have f: "float_of_int 16777219 = 16777220" by code_simp
  let ?p0 = "\<lparr>plan_context = gpuContext, plan_deviceId = 0, plan_graph = triangle,
              plan_sourceVertices = 0, plan_outResultCosts = Some 0,
              plan_numResults = 5592406\<rparr>"
  let ?p1 = "\<lparr>plan_context = cpuContext, plan_deviceId = 0, plan_graph = triangle,
              plan_sourceVertices = 5592406, plan_outResultCosts = Some 16777218,
              plan_numResults = - 1\<rparr>"
  let ?p2 = "\<lparr>plan_context = cpuContext, plan_deviceId = 1, plan_graph = triangle,
              plan_sourceVertices = 5592405, plan_outResultCosts = Some 16777215,
              plan_numResults = 11184814\<rparr>"
  have v: "vertexCount triangle = 3" by (simp add: triangle_def)
  have p: "plans_MultiGPUandCPU 1 2 triangle 16777219 = Some [?p0, ?p1, ?p2]"
    by (simp add: plans_MultiGPUandCPU_def f int_of_float_def uint32_def int32_def Let_def
          plan_device_def add_remaining_def numeral_2_eq_2 int_mul_def v)
  have "5592405 \<in> plan_queries ?p0" "5592405 \<in> plan_queries ?p2"
    by (simp_all add: plan_queries_def)
  with f p show ?thesis by simp
qed

text \<open>
  Claim C9. With no device the multi-device entry points do nothing: when the context of
  \<open>runDijkstraMultiGPU\<close> has no device, or either context of
  \<open>runDijkstraMultiGPUandCPU\<close> has none, the function returns with no plan built and
  no worker launched, and the output array is the one it was given, whatever the workers
  would do.
\<close>

theorem no_device_no_work:
  "runDijkstraMultiGPU dijkstraThread 0 graph sourceVertices outResultCosts numResults =
     ([], outResultCosts) \<and>
   runDijkstraMultiGPUandCPU dijkstraThread 0 cpuDeviceCount graph sourceVertices
       outResultCosts numResults = Some ([], outResultCosts) \<and>
   runDijkstraMultiGPUandCPU dijkstraThread gpuDeviceCount 0 graph sourceVertices
       outResultCosts numResults = Some ([], outResultCosts)"
  by (simp add: runDijkstraMultiGPU_def runDijkstraMultiGPUandCPU_def)

end
